theory Spec2Isabelle
  imports Main "HOL-Library.Multiset" "HOL-Library.Log_Nat"
begin

section \<open>Daily COVID data of the Italian regions: the analysis script\<close>

text \<open>
  A shallow embedding of \<^verbatim>\<open>COVID_example.py\<close>. Every function of the script that
  computes something (\<^verbatim>\<open>str2int\<close>, \<^verbatim>\<open>Region.__init__\<close>, \<^verbatim>\<open>Region.__lt__\<close>,
  \<^verbatim>\<open>Parse\<close>, \<^verbatim>\<open>TopRegion\<close>, \<^verbatim>\<open>ParseFiles\<close>, \<^verbatim>\<open>ComputeAverage\<close>,
  \<^verbatim>\<open>str2date\<close>) is a HOL function of the same name; the plotting functions only draw.

  Conventions of the model.
  \<^item> A Python \<^verbatim>\<open>str\<close> is a \<^typ>\<open>string\<close>, one \<^typ>\<open>char\<close> per code point; the model
    therefore covers text whose code points are below 256.
  \<^item> A Python \<^verbatim>\<open>int\<close> is an \<^typ>\<open>int\<close>.
  \<^item> An exception is a value \<open>Inl e\<close> of a sum type; a normal return is \<open>Inr v\<close>.
\<close>

subsection \<open>Exceptions\<close>

datatype pyerror =
    ValueError
  | IndexError
  | KeyError
  | TypeError
  | ZeroDivisionError
  | OverflowError
  | OSError

text \<open>\<^verbatim>\<open>ZeroDivisionError\<close> and \<^verbatim>\<open>OverflowError\<close> are the subclasses of Python's
  \<^verbatim>\<open>ArithmeticError\<close> that this program can raise.\<close>

fun is_ArithmeticError :: "pyerror \<Rightarrow> bool" where
  "is_ArithmeticError ZeroDivisionError = True"
| "is_ArithmeticError OverflowError = True"
| "is_ArithmeticError _ = False"

subsection \<open>Sequences: indexing and slicing\<close>

text \<open>\<^verbatim>\<open>xs[i]\<close> for \<open>i \<ge> 0\<close>: \<^verbatim>\<open>IndexError\<close> when out of range.\<close>

definition py_index :: "'a list \<Rightarrow> nat \<Rightarrow> pyerror + 'a" where
  "py_index xs i = (if i < length xs then Inr (xs ! i) else Inl IndexError)"

text \<open>\<^verbatim>\<open>xs[i:j]\<close>: a negative bound counts from the end, and every bound is clamped to
  the sequence; a slice never raises.\<close>

definition slice_bound :: "nat \<Rightarrow> int \<Rightarrow> nat" where
  "slice_bound n i = (if i < 0 then nat (max (i + int n) 0) else min (nat i) n)"

definition py_slice :: "'a list \<Rightarrow> int \<Rightarrow> int \<Rightarrow> 'a list" where
  "py_slice xs i j =
     (let lo = slice_bound (length xs) i; hi = slice_bound (length xs) j
      in take (hi - lo) (drop lo xs))"

subsection \<open>\<^verbatim>\<open>str2date\<close>\<close>

text \<open>
  \<^verbatim>\<open>
  def str2date(s):
      year = s[0:4]
      month = s[5:7]
      day = s[8:10]
      return '{}-{}-{}'.format(year, month, day)
  \<close>
\<close>

definition str2date :: "string \<Rightarrow> string" where
  "str2date s =
     (let year = py_slice s 0 4;
          month = py_slice s 5 7;
          day = py_slice s 8 10
      in year @ ''-'' @ month @ ''-'' @ day)"

text \<open>The layout \<^verbatim>\<open>YYYY-MM-DDThh:mm:ss\<close>, as the docstring of \<^verbatim>\<open>str2date\<close> gives it:
  nineteen characters, digits except for the separators at their fixed places.\<close>

definition is_digit :: "char \<Rightarrow> bool" where
  "is_digit c = (48 \<le> (of_char c :: nat) \<and> (of_char c :: nat) \<le> 57)"

definition is_timestamp :: "string \<Rightarrow> bool" where
  "is_timestamp s =
     (length s = 19 \<and>
      s ! 4 = CHR ''-'' \<and> s ! 7 = CHR ''-'' \<and> s ! 10 = CHR ''T'' \<and>
      s ! 13 = CHR '':'' \<and> s ! 16 = CHR '':'' \<and>
      list_all (\<lambda>i. is_digit (s ! i)) [0, 1, 2, 3, 5, 6, 8, 9, 11, 12, 14, 15, 17, 18])"

subsection \<open>Results and exceptions in sequence\<close>

text \<open>Running \<open>f\<close> on the value of \<open>r\<close>, unless \<open>r\<close> raised.\<close>

definition py_then :: "pyerror + 'a \<Rightarrow> ('a \<Rightarrow> pyerror + 'b) \<Rightarrow> pyerror + 'b" where
  "py_then r f = (case r of Inl e \<Rightarrow> Inl e | Inr v \<Rightarrow> f v)"

subsection \<open>The built-in \<^verbatim>\<open>int\<close> on a string\<close>

text \<open>
  \<^verbatim>\<open>int(x)\<close> for a string \<^verbatim>\<open>x\<close> reads a decimal numeral: white space, an optional sign,
  digits with single underscores between them, white space, and nothing else; anything
  else raises \<^verbatim>\<open>ValueError\<close>. White space, for code points below 256, is
  \<^verbatim>\<open>\t \n \v \f \r\<close>, the space, and the code points 133 and 160.

  The interpreter may cap the number of digits of such a numeral
  (\<^verbatim>\<open>sys.get_int_max_str_digits()\<close>, 4300 unless configured, 0 for no cap; older
  interpreters have none). The cap is the parameter \<open>cap\<close> of the model; as in the
  interpreter it is only looked at for numerals of more than 640 digits.
\<close>

definition is_space :: "char \<Rightarrow> bool" where
  "is_space c = ((of_char c :: nat) \<in> {9, 10, 11, 12, 13, 32, 133, 160})"

definition digit_val :: "char \<Rightarrow> nat" where
  "digit_val c = of_char c - 48"

text \<open>The scan of the digits: \<open>us\<close> tells that the previous character was an underscore,
  \<open>ds\<close> holds the digits read so far. The scan stops at the first character that is
  neither a digit nor an underscore, and fails on a doubled or a trailing underscore.\<close>

fun scan_digits :: "bool \<Rightarrow> nat list \<Rightarrow> string \<Rightarrow> (nat list \<times> string) option" where
  "scan_digits us ds [] = (if us then None else Some (ds, []))"
| "scan_digits us ds (c # cs) =
     (if is_digit c then scan_digits False (ds @ [digit_val c]) cs
      else if c = CHR ''_'' then (if us then None else scan_digits True ds cs)
      else if us then None else Some (ds, c # cs))"

definition decimal :: "nat list \<Rightarrow> nat" where
  "decimal ds = foldl (\<lambda>v d. 10 * v + d) 0 ds"

definition take_sign :: "string \<Rightarrow> bool \<times> string" where
  "take_sign s =
     (case s of
        [] \<Rightarrow> (False, [])
      | c # cs \<Rightarrow>
          if c = CHR ''+'' then (False, cs)
          else if c = CHR ''-'' then (True, cs)
          else (False, s))"

definition over_digit_limit :: "nat \<Rightarrow> nat \<Rightarrow> bool" where
  "over_digit_limit cap n = (640 < n \<and> 0 < cap \<and> cap < n)"

definition py_int :: "nat \<Rightarrow> string \<Rightarrow> pyerror + int" where
  "py_int cap s =
     (case take_sign (dropWhile is_space s) of
        (neg, body) \<Rightarrow>
          if body = [] \<or> hd body = CHR ''_'' then Inl ValueError
          else
            (case scan_digits False [] body of
               None \<Rightarrow> Inl ValueError
             | Some (ds, rest) \<Rightarrow>
                 if ds = [] then Inl ValueError
                 else if over_digit_limit cap (length ds) then Inl ValueError
                 else if dropWhile is_space rest \<noteq> [] then Inl ValueError
                 else Inr (if neg then - int (decimal ds) else int (decimal ds))))"

subsection \<open>\<^verbatim>\<open>str2int\<close>\<close>

text \<open>
  \<^verbatim>\<open>
  def str2int(x):
      try:
          return int(x)
      except:
          return 'nan'
  \<close>
  The result is an integer or the string \<^verbatim>\<open>'nan'\<close>: a value of type \<open>numfield\<close>.
\<close>

datatype numfield = IntV int | NanStr

definition str2int :: "nat \<Rightarrow> string \<Rightarrow> numfield" where
  "str2int cap x = (case py_int cap x of Inr i \<Rightarrow> IntV i | Inl e \<Rightarrow> NanStr)"

subsection \<open>The class \<^verbatim>\<open>Region\<close>\<close>

text \<open>
  \<^verbatim>\<open>
  def __init__(self, row):
      self.Date = row[0]
      self.Name = row[3]
      self.ICU = str2int(row[7])
      self.NewCases = str2int(row[12])
      self.Deaths = str2int(row[14])
      self.TotalCases = str2int(row[10])
      self.Tests = str2int(row[16])
  \<close>
\<close>

record Region =
  Date :: string
  Name :: string
  ICU :: numfield
  NewCases :: numfield
  Deaths :: numfield
  TotalCases :: numfield
  Tests :: numfield

definition Region_init :: "nat \<Rightarrow> string list \<Rightarrow> pyerror + Region" where
  "Region_init cap row =
     py_then (py_index row 0) (\<lambda>date.
     py_then (py_index row 3) (\<lambda>name.
     py_then (py_index row 7) (\<lambda>icu.
     py_then (py_index row 12) (\<lambda>new.
     py_then (py_index row 14) (\<lambda>deaths.
     py_then (py_index row 10) (\<lambda>total.
     py_then (py_index row 16) (\<lambda>tests.
       Inr \<lparr>Date = date, Name = name, ICU = str2int cap icu,
            NewCases = str2int cap new, Deaths = str2int cap deaths,
            TotalCases = str2int cap total, Tests = str2int cap tests\<rparr>)))))))"

subsection \<open>\<^verbatim>\<open>Parse\<close> and \<^verbatim>\<open>ParseFiles\<close>\<close>

text \<open>
  A text file, once opened, is the sequence of its lines, each with the newline that
  ends it (the last line may have none): \<open>py_lines\<close> of its text. \<^verbatim>\<open>readline()\<close> takes
  the first line off, the \<^verbatim>\<open>for\<close> loop takes the others. The file system \<open>fs\<close> gives
  the text of a file as the file object delivers it (decoded, line ends as
  \<^verbatim>\<open>\n\<close>); a name without a text cannot be opened, and \<^verbatim>\<open>open\<close> raises \<^verbatim>\<open>OSError\<close>.
\<close>

definition newline :: char where
  "newline = CHR 0x0A"

fun py_lines :: "string \<Rightarrow> string list" where
  "py_lines [] = []"
| "py_lines (c # cs) =
     (if c = newline then [c] # py_lines cs
      else (case py_lines cs of [] \<Rightarrow> [[c]] | l # ls \<Rightarrow> (c # l) # ls))"

text \<open>\<^verbatim>\<open>s.split(sep)\<close> for a one-character separator: at least one field, also for the
  empty string.\<close>

fun py_split :: "char \<Rightarrow> string \<Rightarrow> string list" where
  "py_split sep [] = [[]]"
| "py_split sep (c # cs) =
     (if c = sep then [] # py_split sep cs
      else (case py_split sep cs of [] \<Rightarrow> [[c]] | f # fs \<Rightarrow> (c # f) # fs))"

text \<open>\<^verbatim>\<open>l.replace('\n','').split(',')\<close>\<close>

definition row_of_line :: "string \<Rightarrow> string list" where
  "row_of_line l = py_split CHR '','' (filter (\<lambda>c. c \<noteq> newline) l)"

text \<open>
  \<^verbatim>\<open>
  def Parse(filename):
      fh = open(filename, 'r', encoding = 'utf-8')
      fh.readline()
      Ls = []
      for l in fh:
          row = l.replace('\n','').split(',')
          Ls.append(Region(row))
      return Ls
  \<close>
  \<open>Parse_loop\<close> is the \<^verbatim>\<open>for\<close> loop, with the list \<^verbatim>\<open>Ls\<close> built so far.
\<close>

fun Parse_loop :: "nat \<Rightarrow> string list \<Rightarrow> Region list \<Rightarrow> pyerror + Region list" where
  "Parse_loop cap [] Ls = Inr Ls"
| "Parse_loop cap (l # ls) Ls =
     py_then (Region_init cap (row_of_line l)) (\<lambda>r. Parse_loop cap ls (Ls @ [r]))"

definition Parse :: "nat \<Rightarrow> (string \<Rightarrow> string option) \<Rightarrow> string \<Rightarrow> pyerror + Region list" where
  "Parse cap fs filename =
     (case fs filename of
        None \<Rightarrow> Inl OSError
      | Some text \<Rightarrow> Parse_loop cap (drop 1 (py_lines text)) [])"

text \<open>
  \<^verbatim>\<open>
  def ParseFiles(names):
      Rs = []
      for n in names:
          Rs.extend(Parse(n))
      return Rs
  \<close>
\<close>

fun ParseFiles_loop ::
  "nat \<Rightarrow> (string \<Rightarrow> string option) \<Rightarrow> string list \<Rightarrow> Region list \<Rightarrow> pyerror + Region list" where
  "ParseFiles_loop cap fs [] Rs = Inr Rs"
| "ParseFiles_loop cap fs (n # ns) Rs =
     py_then (Parse cap fs n) (\<lambda>Ls. ParseFiles_loop cap fs ns (Rs @ Ls))"

definition ParseFiles :: "nat \<Rightarrow> (string \<Rightarrow> string option) \<Rightarrow> string list \<Rightarrow> pyerror + Region list" where
  "ParseFiles cap fs names = ParseFiles_loop cap fs names []"

subsection \<open>Floating-point numbers\<close>

text \<open>
  A Python \<^verbatim>\<open>float\<close> is an IEEE 754 binary64 number. The model holds the rational value
  of a finite float, the two infinities, and NaN. It does not tell \<^verbatim>\<open>0.0\<close> from
  \<^verbatim>\<open>-0.0\<close>: the two compare equal, and no decision of the program depends on the sign
  of a zero.

  \<open>fl x\<close> is the float nearest to the rational \<open>x\<close>, ties going to the even
  significand, or \<open>None\<close> when that value is beyond the largest float. A finite float
  is \<open>m * 2 ^ e\<close> with \<open>m < 2 ^ 53\<close> and \<open>e \<ge> -1074\<close>, below \<open>2 ^ 1024\<close>.
\<close>

datatype pyfloat = Fin rat | PosInf | NegInf | NaN

definition pow2 :: "int \<Rightarrow> rat" where
  "pow2 e = (if 0 \<le> e then 2 ^ nat e else 1 / 2 ^ nat (- e))"

definition round_half_even :: "rat \<Rightarrow> int" where
  "round_half_even q =
     (let f = \<lfloor>q\<rfloor>; r = q - of_int f
      in if r < 1 / 2 then f else if 1 / 2 < r then f + 1 else if even f then f else f + 1)"

text \<open>For \<open>x > 0\<close>, the integer \<open>k\<close> with \<open>2 ^ k \<le> x < 2 ^ (k + 1)\<close>, from the numbers
  of bits of the numerator and the denominator of \<open>x\<close>.\<close>

definition ilog2 :: "rat \<Rightarrow> int" where
  "ilog2 x =
     (case quotient_of x of
        (n, d) \<Rightarrow>
          let k = int (floorlog 2 (nat n)) - int (floorlog 2 (nat d))
          in if pow2 k \<le> x then k else k - 1)"

definition fl :: "rat \<Rightarrow> rat option" where
  "fl x =
     (if x = 0 then Some 0
      else
        let e = max (ilog2 \<bar>x\<bar> - 52) (- 1074);
            m = round_half_even (\<bar>x\<bar> / pow2 e);
            y = of_int m * pow2 e
        in if pow2 1024 \<le> y then None else Some (if 0 < x then y else - y))"

text \<open>\<^verbatim>\<open>float(x)\<close> for an attribute \<^verbatim>\<open>x\<close>: an integer is rounded to the nearest float,
  \<^verbatim>\<open>OverflowError\<close> if it is too large; the string \<^verbatim>\<open>'nan'\<close> is read as NaN.\<close>

fun float_of :: "numfield \<Rightarrow> pyerror + pyfloat" where
  "float_of (IntV i) =
     (case fl (of_int i) of None \<Rightarrow> Inl OverflowError | Some y \<Rightarrow> Inr (Fin y))"
| "float_of NanStr = Inr NaN"

text \<open>The quotient of a float by a finite float \<open>y\<close> other than zero: rounded to the
  nearest float, an infinity when beyond the largest float (float arithmetic does not
  raise then).\<close>

fun float_quot :: "pyfloat \<Rightarrow> rat \<Rightarrow> pyfloat" where
  "float_quot (Fin x) y =
     (case fl (x / y) of
        Some q \<Rightarrow> Fin q
      | None \<Rightarrow> if 0 < x / y then PosInf else NegInf)"
| "float_quot PosInf y = (if 0 < y then PosInf else NegInf)"
| "float_quot NegInf y = (if 0 < y then NegInf else PosInf)"
| "float_quot NaN y = NaN"

text \<open>\<^verbatim>\<open>a / x\<close> for a float \<^verbatim>\<open>a\<close> and an attribute \<^verbatim>\<open>x\<close>: a string as divisor raises
  \<^verbatim>\<open>TypeError\<close>; an integer divisor is converted to a float first
  (\<^verbatim>\<open>OverflowError\<close>), and a zero divisor raises \<^verbatim>\<open>ZeroDivisionError\<close>, also when
  \<^verbatim>\<open>a\<close> is NaN.\<close>

fun float_truediv :: "pyfloat \<Rightarrow> numfield \<Rightarrow> pyerror + pyfloat" where
  "float_truediv a NanStr = Inl TypeError"
| "float_truediv a (IntV i) =
     (case fl (of_int i) of
        None \<Rightarrow> Inl OverflowError
      | Some y \<Rightarrow> if y = 0 then Inl ZeroDivisionError else Inr (float_quot a y))"

text \<open>\<^verbatim>\<open>a < b\<close> on floats: false whenever one of them is NaN.\<close>

fun float_lt :: "pyfloat \<Rightarrow> pyfloat \<Rightarrow> bool" where
  "float_lt NaN b = False"
| "float_lt a NaN = False"
| "float_lt (Fin x) (Fin y) = (x < y)"
| "float_lt (Fin x) PosInf = True"
| "float_lt (Fin x) NegInf = False"
| "float_lt PosInf b = False"
| "float_lt NegInf NegInf = False"
| "float_lt NegInf b = True"

text \<open>\<^verbatim>\<open>a / b\<close> for integers: the float nearest to the exact quotient;
  \<^verbatim>\<open>ZeroDivisionError\<close> for a zero divisor, \<^verbatim>\<open>OverflowError\<close> when the quotient is
  beyond the largest float.\<close>

definition int_truediv :: "int \<Rightarrow> int \<Rightarrow> pyerror + pyfloat" where
  "int_truediv a b =
     (if b = 0 then Inl ZeroDivisionError
      else (case fl (of_int a / of_int b) of
              None \<Rightarrow> Inl OverflowError
            | Some q \<Rightarrow> Inr (Fin q)))"

text \<open>\<^verbatim>\<open>round(x, 2)\<close> for a float: the exact value of \<open>x\<close> is rounded to two decimals,
  ties going to the even last digit, and the result is the float nearest to that
  decimal. An infinity or NaN is returned as it is.\<close>

fun py_round2 :: "pyfloat \<Rightarrow> pyerror + pyfloat" where
  "py_round2 (Fin x) =
     (case fl (of_int (round_half_even (x * 100)) / 100) of
        None \<Rightarrow> Inl OverflowError
      | Some q \<Rightarrow> Inr (Fin q))"
| "py_round2 a = Inr a"

subsection \<open>\<^verbatim>\<open>Region.__lt__\<close> and \<^verbatim>\<open>TopRegion\<close>\<close>

text \<open>
  \<^verbatim>\<open>
  def __lt__(self, other):
      return float(self.Deaths) / self.TotalCases < float(other.Deaths) / other.TotalCases
  \<close>
  \<open>ratio r\<close> is the expression \<^verbatim>\<open>float(r.Deaths) / r.TotalCases\<close>.
\<close>

definition ratio :: "Region \<Rightarrow> pyerror + pyfloat" where
  "ratio r = py_then (float_of (Deaths r)) (\<lambda>a. float_truediv a (TotalCases r))"

definition Region_lt :: "Region \<Rightarrow> Region \<Rightarrow> pyerror + bool" where
  "Region_lt self other =
     py_then (ratio self) (\<lambda>a. py_then (ratio other) (\<lambda>b. Inr (float_lt a b)))"

text \<open>
  \<^verbatim>\<open>sorted(xs, reverse=True)\<close> reverses the list, sorts it in ascending order with a
  stable sort that compares by \<^verbatim>\<open><\<close> only, and reverses the result; an exception
  raised by a comparison ends the sort. A list of fewer than two elements is returned
  without any comparison. Which pairs the sort compares, and in which order, is left
  open by the language; the model is a straight insertion sort: each element in turn
  is compared, as the left operand of \<^verbatim>\<open><\<close>, with the elements already sorted, and
  goes before the first one it is less than. \<open>py_sort lt xs acc\<close> inserts the elements
  of \<open>xs\<close> into the sorted list \<open>acc\<close>.

  The properties proved of the sort are those that hold for any such choice. When
  every comparison returns and \<^verbatim>\<open><\<close> orders the elements by a key, the result is the
  one stable arrangement by that key. When the sort has two elements or more, every
  element takes part in a comparison, so an element on which the comparisons raise
  makes the sort raise; which exception comes first may depend on the choice.
\<close>

fun py_insert :: "('a \<Rightarrow> 'a \<Rightarrow> pyerror + bool) \<Rightarrow> 'a \<Rightarrow> 'a list \<Rightarrow> pyerror + 'a list" where
  "py_insert lt x [] = Inr [x]"
| "py_insert lt x (y # ys) =
     py_then (lt x y) (\<lambda>b.
       if b then Inr (x # y # ys)
       else py_then (py_insert lt x ys) (\<lambda>zs. Inr (y # zs)))"

fun py_sort :: "('a \<Rightarrow> 'a \<Rightarrow> pyerror + bool) \<Rightarrow> 'a list \<Rightarrow> 'a list \<Rightarrow> pyerror + 'a list" where
  "py_sort lt [] acc = Inr acc"
| "py_sort lt (x # xs) acc = py_then (py_insert lt x acc) (py_sort lt xs)"

definition sorted_reverse :: "('a \<Rightarrow> 'a \<Rightarrow> pyerror + bool) \<Rightarrow> 'a list \<Rightarrow> pyerror + 'a list" where
  "sorted_reverse lt xs = py_then (py_sort lt (rev xs) []) (\<lambda>ys. Inr (rev ys))"

text \<open>
  \<^verbatim>\<open>
  def TopRegion(Ls, n=3):
      return sorted(Ls, reverse=True)[:n]
  \<close>
\<close>

definition TopRegion :: "Region list \<Rightarrow> int \<Rightarrow> pyerror + Region list" where
  "TopRegion Ls n = py_then (sorted_reverse Region_lt Ls) (\<lambda>s. Inr (py_slice s 0 n))"

subsection \<open>\<^verbatim>\<open>ComputeAverage\<close>\<close>

text \<open>A dictionary is the list of its items in the order of insertion, no key twice.
  \<^verbatim>\<open>d.get(k, v)\<close>, \<^verbatim>\<open>d[k] = v\<close> and \<^verbatim>\<open>d[k]\<close>:\<close>

definition dict_get :: "('k \<times> 'v) list \<Rightarrow> 'k \<Rightarrow> 'v \<Rightarrow> 'v" where
  "dict_get d k v = (case map_of d k of None \<Rightarrow> v | Some w \<Rightarrow> w)"

fun dict_set :: "('k \<times> 'v) list \<Rightarrow> 'k \<Rightarrow> 'v \<Rightarrow> ('k \<times> 'v) list" where
  "dict_set [] k v = [(k, v)]"
| "dict_set ((k', v') # d) k v =
     (if k' = k then (k, v) # d else (k', v') # dict_set d k v)"

definition dict_item :: "('k \<times> 'v) list \<Rightarrow> 'k \<Rightarrow> pyerror + 'v" where
  "dict_item d k = (case map_of d k of None \<Rightarrow> Inl KeyError | Some w \<Rightarrow> Inr w)"

text \<open>\<^verbatim>\<open>i + x\<close> for an integer \<^verbatim>\<open>i\<close> and an attribute \<^verbatim>\<open>x\<close>: adding the string
  \<^verbatim>\<open>'nan'\<close> raises \<^verbatim>\<open>TypeError\<close>.\<close>

fun int_add :: "int \<Rightarrow> numfield \<Rightarrow> pyerror + int" where
  "int_add i (IntV j) = Inr (i + j)"
| "int_add i NanStr = Inl TypeError"

text \<open>
  \<^verbatim>\<open>
  def ComputeAverage(Ls):
      D = {}
      C = {}
      for l in Ls:
          D[l.Name] = D.get(l.Name, 0) + l.NewCases
          C[l.Name] = C.get(l.Name, 0) + 1
      for name in D:
          D[name] = round(D[name] / C[name], 2)
      return D
  \<close>
  \<open>accumulate\<close> is the first loop, on the pair of the dictionaries \<^verbatim>\<open>D\<close> and \<^verbatim>\<open>C\<close>.
  \<open>averages\<close> is the second loop: it visits the items of \<^verbatim>\<open>D\<close> in their order, each key
  once, so the value it reads at a key is the sum the first loop left there, and it
  replaces that value by the rounded quotient.
\<close>

fun accumulate ::
  "Region list \<Rightarrow> (string \<times> int) list \<times> (string \<times> int) list \<Rightarrow>
   pyerror + (string \<times> int) list \<times> (string \<times> int) list" where
  "accumulate [] (D, C) = Inr (D, C)"
| "accumulate (l # ls) (D, C) =
     py_then (int_add (dict_get D (Name l) 0) (NewCases l)) (\<lambda>s.
       accumulate ls (dict_set D (Name l) s, dict_set C (Name l) (dict_get C (Name l) 0 + 1)))"

fun averages ::
  "(string \<times> int) list \<Rightarrow> (string \<times> int) list \<Rightarrow> pyerror + (string \<times> pyfloat) list" where
  "averages [] C = Inr []"
| "averages ((name, s) # D) C =
     py_then (dict_item C name) (\<lambda>c.
     py_then (int_truediv s c) (\<lambda>q.
     py_then (py_round2 q) (\<lambda>r.
     py_then (averages D C) (\<lambda>rest. Inr ((name, r) # rest)))))"

definition ComputeAverage :: "Region list \<Rightarrow> pyerror + (string \<times> pyfloat) list" where
  "ComputeAverage Ls = py_then (accumulate Ls ([], [])) (\<lambda>(D, C). averages D C)"

subsection \<open>Notions of the specification\<close>













text \<open>A number is in the range of the floats when it rounds to a finite float: when its
  magnitude is below \<open>2 ^ 1024 - 2 ^ 970\<close>, half a step above the largest float
  \<open>2 ^ 1024 - 2 ^ 971\<close>.\<close>

definition float_range :: "rat \<Rightarrow> bool" where
  "float_range x = (\<bar>x\<bar> < 2 ^ 1024 - 2 ^ 970)"

text \<open>An observation has a ratio when its deaths and its total cases are integers in
  the range of the floats and its total cases are not zero. The ratio, as a number, is
  then \<open>ratio_value\<close>.\<close>

definition has_ratio :: "Region \<Rightarrow> bool" where
  "has_ratio r =
     (case (Deaths r, TotalCases r) of
        (IntV d, IntV t) \<Rightarrow> t \<noteq> 0 \<and> float_range (of_int d) \<and> float_range (of_int t)
      | _ \<Rightarrow> False)"

definition ratio_value :: "Region \<Rightarrow> rat" where
  "ratio_value r = (case ratio r of Inr (Fin q) \<Rightarrow> q | _ \<Rightarrow> 0)"

text \<open>\<^verbatim>\<open>float\<close> accepts an attribute when it is the string \<^verbatim>\<open>'nan'\<close> or an integer in
  the range of the floats.\<close>

fun convertible :: "numfield \<Rightarrow> bool" where
  "convertible (IntV i) = float_range (of_int i)"
| "convertible NanStr = True"

definition total_in_range :: "Region \<Rightarrow> bool" where
  "total_in_range r = (case TotalCases r of IntV t \<Rightarrow> float_range (of_int t) | NanStr \<Rightarrow> False)"

text \<open>The sum and the number of the new-case counts of a region in a sequence of
  observations, and the region's mean.\<close>

definition region_sum :: "Region list \<Rightarrow> string \<Rightarrow> int" where
  "region_sum obs name =
     sum_list (map (\<lambda>l. case NewCases l of IntV v \<Rightarrow> v | NanStr \<Rightarrow> 0)
       (filter (\<lambda>l. Name l = name) obs))"

definition region_count :: "Region list \<Rightarrow> string \<Rightarrow> int" where
  "region_count obs name = int (length (filter (\<lambda>l. Name l = name) obs))"

definition region_mean :: "Region list \<Rightarrow> string \<Rightarrow> rat" where
  "region_mean obs name = of_int (region_sum obs name) / of_int (region_count obs name)"

text \<open>The new-case counts of a region, in the order of the observations.\<close>

definition new_cases_of :: "Region list \<Rightarrow> string \<Rightarrow> numfield list" where
  "new_cases_of obs name = map NewCases (filter (\<lambda>l. Name l = name) obs)"

text \<open>Rounding a rational to two decimals, ties to the even last digit, in exact
  arithmetic.\<close>

definition round2_exact :: "rat \<Rightarrow> rat" where
  "round2_exact x = of_int (round_half_even (x * 100)) / 100"

text \<open>The text of a file made of the given lines, each ended by a newline; and the
  same text without the newline of the last line.\<close>

definition unlines :: "string list \<Rightarrow> string" where
  "unlines ls = concat (map (\<lambda>l. l @ [newline]) ls)"

definition unlines_open :: "string list \<Rightarrow> string" where
  "unlines_open ls = butlast (unlines ls)"

text \<open>A file system that holds one file.\<close>

definition one_file :: "string \<Rightarrow> string \<Rightarrow> (string \<Rightarrow> string option)" where
  "one_file name text = (\<lambda>n. if n = name then Some text else None)"

text \<open>A row of the file of 14 June 2020, as \<^verbatim>\<open>split(',')\<close> gives it, with a negative
  count of new cases.\<close>

definition row_example :: "string list" where
  "row_example =
     [''2020-06-14T17:00:00'', ''ITA'', ''03'', ''Lombardia'', ''45.46'', ''9.19'',
      ''2199'', ''96'', ''2295'', ''13354'', ''15649'', ''-340'', ''-229'', ''58975'',
      ''16449'', ''91073'', ''886816'']"

text \<open>The same row as a line of the file, and a header line.\<close>

definition line_example :: string where
  "line_example =
     ''2020-06-14T17:00:00,ITA,03,Lombardia,45.46,9.19,2199,96,2295,13354,15649,-340,-229,58975,16449,91073,886816''"

definition header_example :: string where
  "header_example = ''data,stato,codice_regione,denominazione_regione''"

text \<open>The observation that row makes, and a file system whose one file holds the header
  and that row.\<close>

definition region_example :: Region where
  "region_example =
     \<lparr>Date = ''2020-06-14T17:00:00'', Name = ''Lombardia'', ICU = IntV 96,
      NewCases = IntV (- 229), Deaths = IntV 16449, TotalCases = IntV 15649,
      Tests = IntV 886816\<rparr>"

definition fs_example :: "string \<Rightarrow> string option" where
  "fs_example = one_file ''f.csv'' (unlines [header_example, line_example])"

text \<open>An observation of a region with given counts of new cases, deaths and total
  cases, for the examples.\<close>

definition observation :: "string \<Rightarrow> int \<Rightarrow> int \<Rightarrow> int \<Rightarrow> Region" where
  "observation name new deaths cases =
     \<lparr>Date = ''2020-06-14T17:00:00'', Name = name, ICU = IntV 0, NewCases = IntV new,
      Deaths = IntV deaths, TotalCases = IntV cases, Tests = IntV 0\<rparr>"

section \<open>Properties\<close>

subsection \<open>Slices\<close>

lemma py_slice_nonneg:
  "0 \<le> i \<Longrightarrow> 0 \<le> j \<Longrightarrow> py_slice xs i j = take (nat j - nat i) (drop (nat i) xs)"
  by (auto simp: py_slice_def slice_bound_def Let_def min_def)

lemma str2date_slices:
  "str2date s = take 4 s @ ''-'' @ take 2 (drop 5 s) @ ''-'' @ take 2 (drop 8 s)"
  by (simp add: str2date_def py_slice_nonneg)

subsection \<open>Date extraction\<close>

text \<open>
  Claim C8. \<^verbatim>\<open>str2date("2020-06-15T18:00:00")\<close> is \<^verbatim>\<open>"2020-06-15"\<close>, and for every
  string of the layout \<^verbatim>\<open>YYYY-MM-DDThh:mm:ss\<close> the result of \<^verbatim>\<open>str2date\<close> is the
  first ten characters of the string, its \<^verbatim>\<open>YYYY-MM-DD\<close> prefix.
\<close>

theorem str2date_timestamp:
  "str2date ''2020-06-15T18:00:00'' = ''2020-06-15'' \<and>
   (is_timestamp s \<longrightarrow> str2date s = take 10 s)"
proof
  show "str2date ''2020-06-15T18:00:00'' = ''2020-06-15''"
    by (simp add: str2date_slices)
next
  show "is_timestamp s \<longrightarrow> str2date s = take 10 s"
  proof
    assume ts: "is_timestamp s"
    then have len: "length s = 19" and d1: "s ! 4 = CHR ''-''" and d2: "s ! 7 = CHR ''-''"
      by (simp_all add: is_timestamp_def)
    have "take 10 s = take 4 s @ take 6 (drop 4 s)"
      using take_add [of 4 6 s] by simp
    also have "take 6 (drop 4 s) = s ! 4 # take 5 (drop 5 s)"
      using len by (simp add: take_Suc_conv_app_nth Cons_nth_drop_Suc [symmetric]
          numeral_eq_Suc)
    also have "take 5 (drop 5 s) = take 2 (drop 5 s) @ take 3 (drop 7 s)"
      using take_add [of 2 3 "drop 5 s"] by simp
    also have "take 3 (drop 7 s) = s ! 7 # take 2 (drop 8 s)"
      using len by (simp add: Cons_nth_drop_Suc [symmetric] numeral_eq_Suc)
    finally show "str2date s = take 10 s"
      by (simp add: str2date_slices d1 d2)
  qed
qed

theorem str2date_timestamp_witness:
  "is_timestamp ''2020-06-14T17:00:00'' \<and>
   str2date ''2020-06-14T17:00:00'' = take 10 ''2020-06-14T17:00:00''"
proof -
  have h: "is_timestamp ''2020-06-14T17:00:00''"
    by (simp add: is_timestamp_def is_digit_def)
  from str2date_timestamp [of "''2020-06-14T17:00:00''"] h show ?thesis
    by blast
qed

text \<open>
  Claim C10. \<^verbatim>\<open>str2date\<close> is defined on every string: its three slices never raise,
  whatever the length of the string, and the result is the three slices joined by
  dashes; the empty string gives \<^verbatim>\<open>"--"\<close>. (The slices are \<^verbatim>\<open>s[0:4]\<close>, \<^verbatim>\<open>s[5:7]\<close>
  and \<^verbatim>\<open>s[8:10]\<close>: the characters at positions 0 to 3, 5 to 6 and 8 to 9 that the
  string has.)
\<close>

theorem str2date_total:
  "str2date s = take 4 s @ ''-'' @ take 2 (drop 5 s) @ ''-'' @ take 2 (drop 8 s) \<and>
   length (str2date s) = min (length s) 4 + min (length s - 5) 2 + min (length s - 8) 2 + 2 \<and>
   str2date [] = ''--'' \<and>
   str2date ''2020'' = ''2020--'' \<and>
   str2date ''2020-06'' = ''2020-06-''"
  by (simp add: str2date_slices)

subsection \<open>Field coercion\<close>




lemma decimal_snoc: "decimal (ds @ [d]) = 10 * decimal ds + d"
  by (simp add: decimal_def)





text \<open>The scan of \<^verbatim>\<open>int\<close> accepts exactly the texts that denote an integer, and
  reads the integer denoted.\<close>

lemma py_split_nonempty [simp]: "py_split sep s \<noteq> []"
  by (induction s) (auto split: list.splits)





















subsection \<open>Record construction\<close>

lemma Region_init_eq:
  "Region_init cap row =
     (if 17 \<le> length row
      then Inr \<lparr>Date = row ! 0, Name = row ! 3, ICU = str2int cap (row ! 7),
               NewCases = str2int cap (row ! 12), Deaths = str2int cap (row ! 14),
               TotalCases = str2int cap (row ! 10), Tests = str2int cap (row ! 16)\<rparr>
      else Inl IndexError)"
  by (simp add: Region_init_def py_then_def py_index_def)


lemmas py_int_eval =
  str2int_def py_int_def is_space_def take_sign_def is_digit_def digit_val_def
  over_digit_limit_def decimal_def



subsection \<open>Lines and rows\<close>

lemma py_lines_line:
  "newline \<notin> set l \<Longrightarrow> py_lines (l @ newline # rest) = (l @ [newline]) # py_lines rest"
  by (induction l) auto

lemma py_lines_last:
  "newline \<notin> set l \<Longrightarrow> l \<noteq> [] \<Longrightarrow> py_lines l = [l]"
proof (induction l)
  case (Cons c cs)
  then show ?case by (cases cs) auto
qed simp

lemma py_lines_unlines:
  "\<forall>l\<in>set ls. newline \<notin> set l \<Longrightarrow>
   py_lines (unlines ls @ t) = map (\<lambda>l. l @ [newline]) ls @ py_lines t"
  by (induction ls) (simp_all add: unlines_def py_lines_line)

lemma unlines_open_snoc:
  "unlines_open (ls @ [l]) = unlines ls @ l"
  by (simp add: unlines_open_def unlines_def butlast_append)

lemma filter_no_newline:
  "newline \<notin> set l \<Longrightarrow> filter (\<lambda>c. c \<noteq> newline) l = l"
  by (induction l) auto

lemma row_of_line_newline:
  "newline \<notin> set l \<Longrightarrow> row_of_line (l @ [newline]) = py_split CHR '','' l"
  "newline \<notin> set l \<Longrightarrow> row_of_line l = py_split CHR '','' l"
  by (simp_all add: row_of_line_def filter_no_newline)

subsection \<open>The loops of \<^verbatim>\<open>Parse\<close> and \<^verbatim>\<open>ParseFiles\<close>\<close>

lemma Parse_loop_ok:
  "\<forall>l\<in>set ls. 17 \<le> length (row_of_line l) \<Longrightarrow>
   \<exists>Rs. Parse_loop cap ls Ls = Inr (Ls @ Rs) \<and> length Rs = length ls \<and>
        (\<forall>i<length ls. Region_init cap (row_of_line (ls ! i)) = Inr (Rs ! i))"
proof (induction ls arbitrary: Ls)
  case Nil
  then show ?case by simp
next
  case (Cons l ls)
  from Cons.prems obtain r where r: "Region_init cap (row_of_line l) = Inr r"
    by (auto simp: Region_init_eq)
  from Cons.IH [of "Ls @ [r]"] Cons.prems obtain Rs where
    Rs: "Parse_loop cap ls (Ls @ [r]) = Inr ((Ls @ [r]) @ Rs)" "length Rs = length ls"
        "\<forall>i<length ls. Region_init cap (row_of_line (ls ! i)) = Inr (Rs ! i)"
    by auto
  show ?case
  proof (intro exI [of _ "r # Rs"] conjI allI impI)
    show "Parse_loop cap (l # ls) Ls = Inr (Ls @ r # Rs)"
      using r Rs(1) by (simp add: py_then_def)
    show "length (r # Rs) = length (l # ls)" using Rs(2) by simp
    fix i assume "i < length (l # ls)"
    then show "Region_init cap (row_of_line ((l # ls) ! i)) = Inr ((r # Rs) ! i)"
      using r Rs(3) by (cases i) auto
  qed
qed

lemma Parse_loop_short:
  "l \<in> set ls \<Longrightarrow> length (row_of_line l) < 17 \<Longrightarrow> Parse_loop cap ls Ls = Inl IndexError"
proof (induction ls arbitrary: Ls)
  case (Cons a ls)
  then show ?case
    by (cases "17 \<le> length (row_of_line a)") (auto simp: Region_init_eq py_then_def)
qed simp

lemma Parse_lines:
  assumes fs: "fs name = Some text"
    and ls: "drop 1 (py_lines text) = ls"
    and rows: "map row_of_line ls = map (py_split CHR '','') rows"
    and wide: "\<forall>r\<in>set rows. 17 \<le> length (py_split CHR '','' r)"
  shows "\<exists>Ls. Parse cap fs name = Inr Ls \<and> length Ls = length rows \<and>
           (\<forall>i<length rows. Region_init cap (py_split CHR '','' (rows ! i)) = Inr (Ls ! i))"
proof -
  have len: "length ls = length rows"
    using rows by (metis length_map)
  have nth: "row_of_line (ls ! i) = py_split CHR '','' (rows ! i)" if "i < length rows" for i
    using that len rows by (metis nth_map)
  have "\<forall>l\<in>set ls. 17 \<le> length (row_of_line l)"
  proof
    fix l assume "l \<in> set ls"
    then obtain i where i: "i < length ls" "ls ! i = l" by (auto simp: in_set_conv_nth)
    with nth [of i] len wide show "17 \<le> length (row_of_line l)" by auto
  qed
  from Parse_loop_ok [OF this, of cap "[]"] obtain Rs where
    Rs: "Parse_loop cap ls [] = Inr Rs" "length Rs = length ls"
        "\<forall>i<length ls. Region_init cap (row_of_line (ls ! i)) = Inr (Rs ! i)"
    by auto
  show ?thesis
  proof (intro exI [of _ Rs] conjI allI impI)
    show "Parse cap fs name = Inr Rs" using fs ls Rs(1) by (simp add: Parse_def)
    show "length Rs = length rows" using Rs(2) len by simp
    fix i assume "i < length rows"
    then show "Region_init cap (py_split CHR '','' (rows ! i)) = Inr (Rs ! i)"
      using Rs(3) len nth by auto
  qed
qed

text \<open>
  Claim C5, as amended. For a file of one header line followed by \<open>k\<close> data rows, each
  of which has at least 17 comma-separated fields, \<^verbatim>\<open>Parse\<close> discards the header and
  returns exactly \<open>k\<close> observations, the \<open>i\<close>-th built from the \<open>i\<close>-th data row. (The
  last row may or may not end with a newline.)
\<close>

theorem Parse_rows:
  assumes fs: "fs name = Some text"
    and tx: "text = unlines (header # rows) \<or> text = unlines_open (header # rows)"
    and nonl: "\<forall>l\<in>set (header # rows). newline \<notin> set l"
    and wide: "\<forall>r\<in>set rows. 17 \<le> length (py_split CHR '','' r)"
  shows "\<exists>Ls. Parse cap fs name = Inr Ls \<and> length Ls = length rows \<and>
           (\<forall>i<length rows. Region_init cap (py_split CHR '','' (rows ! i)) = Inr (Ls ! i))"
proof -
  have closed: "drop 1 (py_lines (unlines (header # rows))) = map (\<lambda>l. l @ [newline]) rows"
    using py_lines_unlines [OF nonl, of "[]"] by simp
  have rows_closed:
    "map row_of_line (map (\<lambda>l. l @ [newline]) rows) = map (py_split CHR '','') rows"
    using nonl by (simp add: row_of_line_newline)
  from tx show ?thesis
  proof
    assume "text = unlines (header # rows)"
    with closed have "drop 1 (py_lines text) = map (\<lambda>l. l @ [newline]) rows" by simp
    from Parse_lines [where fs = fs and name = name, OF fs this rows_closed wide]
    show ?thesis .
  next
    assume op: "text = unlines_open (header # rows)"
    show ?thesis
    proof (cases rows rule: rev_cases)
      case Nil
      have "py_lines header = [] \<or> py_lines header = [header]"
        using py_lines_last [of header] nonl by (cases "header = []") auto
      then have "drop 1 (py_lines text) = []"
        using op Nil by (auto simp: unlines_open_def unlines_def)
      from Parse_lines [where fs = fs and name = name and rows = "[]", OF fs this] Nil
      show ?thesis by simp
    next
      case (snoc rs r)
      have r: "r \<noteq> []" "newline \<notin> set r"
        using wide nonl snoc by auto
      have rs: "\<forall>l\<in>set (header # rs). newline \<notin> set l"
        using nonl snoc by auto
      have "text = unlines (header # rs) @ r"
        using op snoc unlines_open_snoc [of "header # rs" r] by simp
      then have "py_lines text = map (\<lambda>l. l @ [newline]) (header # rs) @ [r]"
        using py_lines_unlines [OF rs, of r] py_lines_last [OF r(2) r(1)] by simp
      then have d: "drop 1 (py_lines text) = map (\<lambda>l. l @ [newline]) rs @ [r]"
        by simp
      have "map row_of_line (map (\<lambda>l. l @ [newline]) rs @ [r]) = map (py_split CHR '','') rows"
        using rs r snoc by (simp add: row_of_line_newline)
      from Parse_lines [where fs = fs and name = name, OF fs d this wide]
      show ?thesis .
    qed
  qed
qed

lemma py_split_line_example: "py_split CHR '','' line_example = row_example"
  by (simp add: line_example_def row_example_def)

text \<open>
  The claim as stated, for every file, fails on a file whose one data row has three
  fields: \<^verbatim>\<open>Parse\<close> raises \<^verbatim>\<open>IndexError\<close> and returns nothing.
\<close>

theorem Parse_short_row:
  "Parse 4300
     (one_file ''f.csv'' (unlines [''data,stato,codice_regione'', ''2020-06-14T17:00:00,ITA,03'']))
     ''f.csv'' = Inl IndexError"
  by (simp add: Parse_def one_file_def unlines_def newline_def row_of_line_def
      Region_init_eq py_then_def)

theorem Parse_rows_witness:
  "newline \<notin> set header_example \<and> newline \<notin> set line_example \<and>
   17 \<le> length (py_split CHR '','' line_example) \<and>
   (\<exists>Ls. Parse 4300 (one_file ''f.csv'' (unlines [header_example, line_example])) ''f.csv''
           = Inr Ls \<and>
         length Ls = 1 \<and>
         Region_init 4300 (py_split CHR '','' line_example) = Inr (Ls ! 0))"
proof -
  have h: "newline \<notin> set header_example" "newline \<notin> set line_example"
    by (simp_all add: header_example_def line_example_def newline_def)
  have w: "17 \<le> length (py_split CHR '','' line_example)"
    by (simp add: py_split_line_example row_example_def)
  have fs: "one_file ''f.csv'' (unlines [header_example, line_example]) ''f.csv''
      = Some (unlines [header_example, line_example])"
    by (simp add: one_file_def)
  have "\<exists>Ls. Parse 4300 (one_file ''f.csv'' (unlines [header_example, line_example])) ''f.csv''
           = Inr Ls \<and>
         length Ls = length [line_example] \<and>
         (\<forall>i<length [line_example].
            Region_init 4300 (py_split CHR '','' ([line_example] ! i)) = Inr (Ls ! i))"
    by (rule Parse_rows [where header = header_example and name = "''f.csv''"
          and fs = "one_file ''f.csv'' (unlines [header_example, line_example])", OF fs])
      (use h w in simp_all)
  then show ?thesis using h w by auto
qed

subsection \<open>Several files\<close>

lemma ParseFiles_loop_ok:
  "list_all2 (\<lambda>n L. Parse cap fs n = Inr L) names Lss \<Longrightarrow>
   ParseFiles_loop cap fs names Rs = Inr (Rs @ concat Lss)"
proof (induction names arbitrary: Lss Rs)
  case Nil
  then show ?case by simp
next
  case (Cons n ns)
  then obtain L Ls where "Lss = L # Ls" "Parse cap fs n = Inr L"
      "list_all2 (\<lambda>n L. Parse cap fs n = Inr L) ns Ls"
    by (auto simp: list_all2_Cons1)
  with Cons.IH [of Ls "Rs @ L"] show ?case by (simp add: py_then_def)
qed

lemma ParseFiles_loop_fails:
  "\<forall>n\<in>set pre. \<exists>L. Parse cap fs n = Inr L \<Longrightarrow> Parse cap fs n = Inl e \<Longrightarrow>
   ParseFiles_loop cap fs (pre @ n # post) Rs = Inl e"
  by (induction pre arbitrary: Rs) (auto simp: py_then_def)

text \<open>
  Claim C6. \<^verbatim>\<open>ParseFiles\<close> on a list of file names is the concatenation of the results
  of \<^verbatim>\<open>Parse\<close> on each name, in the order of the names, each file's observations in
  their own order: for any number of files, for two files, and for the same file given
  twice, whose observations then appear twice (nothing is deduplicated). When
  \<^verbatim>\<open>Parse\<close> raises on a file and succeeded on those before it, \<^verbatim>\<open>ParseFiles\<close>
  raises the same exception.
\<close>

theorem ParseFiles_concat:
  "(length Lss = length names \<and> (\<forall>i<length names. Parse cap fs (names ! i) = Inr (Lss ! i))
      \<longrightarrow> ParseFiles cap fs names = Inr (concat Lss)) \<and>
   (Parse cap fs f1 = Inr L1 \<and> Parse cap fs f2 = Inr L2
      \<longrightarrow> ParseFiles cap fs [f1, f2] = Inr (L1 @ L2)) \<and>
   (Parse cap fs f1 = Inr L1 \<longrightarrow> ParseFiles cap fs [f1, f1] = Inr (L1 @ L1)) \<and>
   (k < length names \<and> (\<forall>j<k. \<exists>L. Parse cap fs (names ! j) = Inr L) \<and>
    Parse cap fs (names ! k) = Inl e
      \<longrightarrow> ParseFiles cap fs names = Inl e)"
proof (intro conjI impI)
  assume "length Lss = length names \<and>
    (\<forall>i<length names. Parse cap fs (names ! i) = Inr (Lss ! i))"
  then have "list_all2 (\<lambda>n L. Parse cap fs n = Inr L) names Lss"
    by (simp add: list_all2_conv_all_nth)
  from ParseFiles_loop_ok [OF this, of "[]"]
  show "ParseFiles cap fs names = Inr (concat Lss)" by (simp add: ParseFiles_def)
next
  assume "Parse cap fs f1 = Inr L1 \<and> Parse cap fs f2 = Inr L2"
  then show "ParseFiles cap fs [f1, f2] = Inr (L1 @ L2)"
    by (simp add: ParseFiles_def py_then_def)
next
  assume "Parse cap fs f1 = Inr L1"
  then show "ParseFiles cap fs [f1, f1] = Inr (L1 @ L1)"
    by (simp add: ParseFiles_def py_then_def)
next
  assume a: "k < length names \<and> (\<forall>j<k. \<exists>L. Parse cap fs (names ! j) = Inr L) \<and>
    Parse cap fs (names ! k) = Inl e"
  then have split: "names = take k names @ names ! k # drop (Suc k) names"
    by (simp add: id_take_nth_drop)
  have "\<forall>n\<in>set (take k names). \<exists>L. Parse cap fs n = Inr L"
  proof
    fix n assume "n \<in> set (take k names)"
    then obtain j where "j < k" "j < length names" "names ! j = n"
      by (auto simp: in_set_conv_nth)
    with a show "\<exists>L. Parse cap fs n = Inr L" by auto
  qed
  from ParseFiles_loop_fails [OF this, of "names ! k" e "drop (Suc k) names" "[]"] a split
  show "ParseFiles cap fs names = Inl e" by (simp add: ParseFiles_def)
qed

lemma Parse_example: "Parse 4300 fs_example ''f.csv'' = Inr [region_example]"
  by (simp add: Parse_def fs_example_def one_file_def unlines_def newline_def
      row_of_line_def header_example_def line_example_def Region_init_eq py_then_def
      region_example_def py_int_eval)

lemma Parse_missing: "Parse 4300 fs_example ''g.csv'' = Inl OSError"
  by (simp add: Parse_def fs_example_def one_file_def)

theorem ParseFiles_concat_witness:
  "Parse 4300 fs_example ''f.csv'' = Inr [region_example] \<and>
   Parse 4300 fs_example ''g.csv'' = Inl OSError \<and>
   ParseFiles 4300 fs_example [''f.csv'', ''f.csv''] = Inr [region_example, region_example] \<and>
   ParseFiles 4300 fs_example [''f.csv'', ''f.csv'', ''f.csv'']
     = Inr [region_example, region_example, region_example] \<and>
   ParseFiles 4300 fs_example [''f.csv'', ''g.csv''] = Inl OSError"
proof -
  note inst = ParseFiles_concat [where cap = 4300 and fs = fs_example]
  have two: "ParseFiles 4300 fs_example [''f.csv'', ''f.csv'']
      = Inr ([region_example] @ [region_example])"
    using inst [where ?f1.0 = "''f.csv''" and ?f2.0 = "''f.csv''" and ?L1.0 = "[region_example]"
        and ?L2.0 = "[region_example]"] Parse_example
    by blast
  have three: "ParseFiles 4300 fs_example [''f.csv'', ''f.csv'', ''f.csv'']
      = Inr (concat [[region_example], [region_example], [region_example]])"
    using inst [where names = "[''f.csv'', ''f.csv'', ''f.csv'']"
        and Lss = "[[region_example], [region_example], [region_example]]"] Parse_example
    by (simp add: nth_Cons split: nat.splits)
  have fail: "ParseFiles 4300 fs_example [''f.csv'', ''g.csv''] = Inl OSError"
    using inst [where names = "[''f.csv'', ''g.csv'']" and k = 1 and e = OSError]
      Parse_example Parse_missing
    by simp
  show ?thesis using two three fail Parse_example Parse_missing by simp
qed

subsection \<open>Rounding to the nearest float\<close>

lemma pow2_powi: "pow2 e = 2 powi e"
  by (simp add: pow2_def power_int_def power_divide)

lemma pow2_pos [simp]: "0 < pow2 e"
  by (simp add: pow2_powi)

lemma pow2_nonzero [simp]: "pow2 e \<noteq> 0"
  by (simp add: pow2_powi)

lemma pow2_nonneg [simp]: "0 \<le> pow2 e"
  by (simp add: pow2_powi)

lemma pow2_add: "pow2 (a + b) = pow2 a * pow2 b"
  by (simp add: pow2_powi power_int_add)

lemma pow2_mono: "a \<le> b \<Longrightarrow> pow2 a \<le> pow2 b"
  by (simp add: pow2_powi power_int_increasing)

lemma pow2_strict_mono: "a < b \<Longrightarrow> pow2 a < pow2 b"
  by (simp add: pow2_powi power_int_strict_increasing)

lemma pow2_nat: "pow2 (int a - int b) = 2 ^ a / 2 ^ b"
  by (simp add: pow2_powi power_int_diff)

lemma bits_bounds:
  assumes "0 < n"
  shows "1 \<le> floorlog 2 (nat n)"
    and "(2::rat) ^ (floorlog 2 (nat n) - 1) \<le> of_int n"
    and "of_int n < (2::rat) ^ floorlog 2 (nat n)"
proof -
  let ?N = "nat n"
  have N: "0 < ?N" using assms by simp
  from floorlog_bounds [OF N, of 2]
  have b: "2 ^ (floorlog 2 ?N - 1) \<le> ?N" "?N < 2 ^ floorlog 2 ?N" by simp_all
  show "1 \<le> floorlog 2 ?N"
    using N floorlog_eq_zero_iff [of 2 ?N] by (cases "floorlog 2 ?N") auto
  have "(of_nat (2 ^ (floorlog 2 ?N - 1)) :: rat) \<le> of_nat ?N"
    using b(1) of_nat_le_iff by blast
  then show "(2::rat) ^ (floorlog 2 ?N - 1) \<le> of_int n"
    using assms by simp
  have "(of_nat ?N :: rat) < of_nat (2 ^ floorlog 2 ?N)"
    using b(2) of_nat_less_iff by blast
  then show "of_int n < (2::rat) ^ floorlog 2 ?N"
    using assms by simp
qed

lemma ilog2_bounds:
  assumes "0 < x"
  shows "pow2 (ilog2 x) \<le> x \<and> x < pow2 (ilog2 x + 1)"
proof -
  obtain n d where q: "quotient_of x = (n, d)" by (cases "quotient_of x")
  then have x: "x = of_int n / of_int d" and d: "0 < d"
    by (simp_all add: quotient_of_div quotient_of_denom_pos)
  with assms have n: "0 < n" by (simp add: zero_less_divide_iff)
  define a where "a = floorlog 2 (nat n)"
  define b where "b = floorlog 2 (nat d)"
  define k where "k = int a - int b"
  note bn = bits_bounds [OF n, folded a_def]
  note bd = bits_bounds [OF d, folded b_def]
  have dpos: "(0::rat) < of_int d" using d by simp
  have il: "ilog2 x = (if pow2 k \<le> x then k else k - 1)"
    by (simp add: ilog2_def q a_def b_def k_def Let_def)
  have up: "x < pow2 (k + 1)"
  proof -
    have "x < 2 ^ a / of_int d"
      unfolding x using bn(3) dpos by (simp add: divide_strict_right_mono)
    also have "\<dots> \<le> 2 ^ a / 2 ^ (b - 1)"
      using bd(2) dpos by (simp add: frac_le)
    also have "\<dots> = pow2 (int a - int (b - 1))" by (simp add: pow2_nat)
    also have "int a - int (b - 1) = k + 1" using bd(1) unfolding k_def by arith
    finally show ?thesis .
  qed
  have low: "pow2 (k - 1) \<le> x"
  proof -
    have "k - 1 = int (a - 1) - int b"
      using bn(1) unfolding k_def by arith
    then have "pow2 (k - 1) = pow2 (int (a - 1) - int b)"
      by simp
    also have "\<dots> = 2 ^ (a - 1) / 2 ^ b" by (simp add: pow2_nat)
    also have "\<dots> \<le> of_int n / 2 ^ b"
      using bn(2) by (simp add: divide_right_mono)
    also have "\<dots> \<le> of_int n / of_int d"
      using bd(3) dpos n by (simp add: frac_le)
    finally show ?thesis by (simp add: x)
  qed
  show ?thesis
  proof (cases "pow2 k \<le> x")
    case True
    with up il show ?thesis by simp
  next
    case False
    with low il show ?thesis by simp
  qed
qed

lemma ilog2_unique:
  assumes "0 < x" "pow2 k \<le> x" "x < pow2 (k + 1)"
  shows "ilog2 x = k"
proof -
  from ilog2_bounds [OF assms(1)]
  have b: "pow2 (ilog2 x) \<le> x" "x < pow2 (ilog2 x + 1)" by simp_all
  have "\<not> ilog2 x + 1 \<le> k"
    using pow2_mono [of "ilog2 x + 1" k] b(2) assms(2) by auto
  moreover have "\<not> k + 1 \<le> ilog2 x"
    using pow2_mono [of "k + 1" "ilog2 x"] b(1) assms(3) by auto
  ultimately show ?thesis by linarith
qed

lemma round_half_even_bounds:
  "of_int (round_half_even q) \<le> q + 1 / 2" "q - 1 / 2 \<le> of_int (round_half_even q)"
proof -
  define f where "f = \<lfloor>q\<rfloor>"
  have f: "of_int f \<le> q" "q < of_int f + 1" unfolding f_def by linarith+
  have r: "round_half_even q =
      (if q - of_int f < 1 / 2 then f
       else if 1 / 2 < q - of_int f then f + 1 else if even f then f else f + 1)"
    by (simp add: round_half_even_def Let_def f_def)
  show "of_int (round_half_even q) \<le> q + 1 / 2"
    unfolding r using f by (simp split: if_splits)
  show "q - 1 / 2 \<le> of_int (round_half_even q)"
    unfolding r using f by (simp split: if_splits)
qed

lemma round_half_even_divide:
  assumes "0 < b"
  shows "round_half_even (of_int a / of_int b) =
     (if 2 * (a mod b) < b then a div b
      else if b < 2 * (a mod b) then a div b + 1
      else if even (a div b) then a div b else a div b + 1)"
proof -
  have fl: "\<lfloor>(of_int a :: rat) / of_int b\<rfloor> = a div b"
    by (simp add: floor_divide_of_int_eq)
  have "(of_int a :: rat) = of_int b * of_int (a div b) + of_int (a mod b)"
    by (metis mult_div_mod_eq of_int_add of_int_mult)
  then have "(of_int a :: rat) / of_int b - of_int (a div b) = of_int (a mod b) / of_int b"
    using assms by (simp add: field_simps)
  then have r: "(of_int a :: rat) / of_int b - of_int \<lfloor>(of_int a :: rat) / of_int b\<rfloor>
      = of_int (a mod b) / of_int b"
    by (simp only: fl)
  have lt: "(of_int (a mod b) / of_int b < (1 / 2 :: rat)) = (2 * (a mod b) < b)"
  proof -
    have "(of_int (a mod b) / of_int b < (1 / 2 :: rat)) = ((of_int (2 * (a mod b)) :: rat) < of_int b)"
      using assms by (simp add: field_simps)
    then show ?thesis by (simp only: of_int_less_iff)
  qed
  have gt: "((1 / 2 :: rat) < of_int (a mod b) / of_int b) = (b < 2 * (a mod b))"
  proof -
    have "((1 / 2 :: rat) < of_int (a mod b) / of_int b) = ((of_int b :: rat) < of_int (2 * (a mod b)))"
      using assms by (simp add: field_simps)
    then show ?thesis by (simp only: of_int_less_iff)
  qed
  show ?thesis
    unfolding round_half_even_def Let_def r lt gt by (simp only: fl)
qed

lemma round_half_even_numeral [simp]:
  "round_half_even (numeral a / numeral b) =
     (if 2 * (numeral a mod numeral b) < (numeral b :: int) then numeral a div numeral b
      else if (numeral b :: int) < 2 * (numeral a mod numeral b) then numeral a div numeral b + 1
      else if even (numeral a div numeral b :: int) then numeral a div numeral b
      else numeral a div numeral b + 1)"
  using round_half_even_divide [of "numeral b" "numeral a"] by simp

lemma round_half_even_neg_numeral [simp]:
  "round_half_even (- (numeral a / numeral b)) =
     (if 2 * (- numeral a mod numeral b) < (numeral b :: int) then - numeral a div numeral b
      else if (numeral b :: int) < 2 * (- numeral a mod numeral b) then - numeral a div numeral b + 1
      else if even (- numeral a div numeral b :: int) then - numeral a div numeral b
      else - numeral a div numeral b + 1)"
  using round_half_even_divide [of "numeral b" "- numeral a"] by simp

lemma round_half_even_floor: "\<lfloor>q\<rfloor> \<le> round_half_even q"
  by (auto simp: round_half_even_def Let_def)

lemma round_half_even_of_int [simp]: "round_half_even (of_int i) = i"
  by (simp add: round_half_even_def)

lemma fl_eq:
  assumes "x \<noteq> 0"
  defines "e \<equiv> max (ilog2 \<bar>x\<bar> - 52) (- 1074)"
  defines "y \<equiv> of_int (round_half_even (\<bar>x\<bar> / pow2 e)) * pow2 e"
  shows "fl x = (if pow2 1024 \<le> y then None else Some (if 0 < x then y else - y))"
  using assms(1) by (simp add: fl_def Let_def e_def y_def)

lemma fl_eval:
  assumes "0 < x" "pow2 k \<le> x" "x < pow2 (k + 1)"
    and "round_half_even (x / pow2 (max (k - 52) (- 1074))) = m"
    and "of_int m * pow2 (max (k - 52) (- 1074)) = y"
    and "y < pow2 1024"
  shows "fl x = Some y"
proof -
  have "ilog2 \<bar>x\<bar> = k"
    using ilog2_unique [of x k] assms(1-3) by simp
  then show ?thesis
    using assms by (simp add: fl_def Let_def)
qed

lemma fl_uminus: "fl (- x) = map_option uminus (fl x)"
  by (cases "x = 0") (auto simp: fl_def Let_def)

lemma fl_ge_one:
  assumes "1 \<le> \<bar>x\<bar>" "fl x = Some y"
  shows "1 \<le> \<bar>y\<bar>"
proof -
  define k where "k = ilog2 \<bar>x\<bar>"
  define e where "e = max (k - 52) (- 1074)"
  define m where "m = round_half_even (\<bar>x\<bar> / pow2 e)"
  have x: "x \<noteq> 0" "0 < \<bar>x\<bar>" using assms by auto
  from ilog2_bounds [OF x(2)] have b: "pow2 k \<le> \<bar>x\<bar>" "\<bar>x\<bar> < pow2 (k + 1)"
    by (simp_all add: k_def)
  have "pow2 0 < pow2 (k + 1)" using assms b(2) by (simp add: pow2_def)
  then have k: "0 < k + 1" using pow2_mono [of "k + 1" 0] by (cases "0 < k + 1") auto
  then have e: "e = k - 52" by (simp add: e_def)
  have pk: "pow2 k = pow2 e * pow2 52"
    using pow2_add [of e 52] by (simp add: e)
  then have "pow2 52 = pow2 k / pow2 e"
    by simp
  also have "\<dots> \<le> \<bar>x\<bar> / pow2 e"
    using b(1) by (simp add: divide_right_mono)
  finally have "(4503599627370496::rat) \<le> \<bar>x\<bar> / pow2 e" by (simp add: pow2_def)
  then have "(4503599627370496::int) \<le> \<lfloor>\<bar>x\<bar> / pow2 e\<rfloor>"
    by (simp add: le_floor_iff)
  with round_half_even_floor [of "\<bar>x\<bar> / pow2 e"] have "4503599627370496 \<le> m"
    unfolding m_def by linarith
  then have "(4503599627370496::rat) \<le> of_int m"
    by (metis of_int_le_iff of_int_numeral)
  then have "pow2 52 \<le> of_int m" by (simp add: pow2_def)
  then have "pow2 52 * pow2 e \<le> of_int m * pow2 e"
    by (simp add: mult_right_mono)
  with pk have "pow2 k \<le> of_int m * pow2 e" by (simp add: mult.commute)
  moreover have "pow2 0 \<le> pow2 k" using k by (intro pow2_mono) simp
  ultimately have y1: "1 \<le> of_int m * pow2 e" by (simp add: pow2_def)
  from assms(2) x(1) have "y = of_int m * pow2 e \<or> y = - (of_int m * pow2 e)"
    by (auto simp: fl_def Let_def k_def e_def m_def split: if_splits)
  with y1 show ?thesis by auto
qed

text \<open>The largest float is \<open>2 ^ 1024 - 2 ^ 971\<close>; a number rounds to a float when its
  magnitude is below \<open>2 ^ 1024 - 2 ^ 970\<close>, half a step above it.\<close>

lemma fl_range:
  assumes "\<bar>x\<bar> < 2 ^ 1024 - 2 ^ 970"
  shows "\<exists>y. fl x = Some y \<and> \<bar>y\<bar> \<le> 2 ^ 1024 - 2 ^ 971"
proof (cases "x = 0")
  case True
  then show ?thesis by (simp add: fl_def)
next
  case False
  define k where "k = ilog2 \<bar>x\<bar>"
  define e where "e = max (k - 52) (- 1074)"
  define m where "m = round_half_even (\<bar>x\<bar> / pow2 e)"
  define y where "y = of_int m * pow2 e"
  have xp: "0 < \<bar>x\<bar>" using False by simp
  from ilog2_bounds [OF xp] have b: "pow2 k \<le> \<bar>x\<bar>" "\<bar>x\<bar> < pow2 (k + 1)"
    by (simp_all add: k_def)
  have "\<bar>x\<bar> < pow2 1024" using assms by (simp add: pow2_def)
  with b have "pow2 k < pow2 1024" by simp
  then have k: "k < 1024" using pow2_mono [of 1024 k] by (cases "k < 1024") auto
  have "0 \<le> \<lfloor>\<bar>x\<bar> / pow2 e\<rfloor>" by simp
  then have m0: "0 \<le> m"
    using round_half_even_floor [of "\<bar>x\<bar> / pow2 e"] unfolding m_def by linarith
  then have y0: "0 \<le> y" by (simp add: y_def)
  have mq: "of_int m \<le> \<bar>x\<bar> / pow2 e + 1 / 2"
    using round_half_even_bounds(1) by (simp add: m_def)
  have yb: "y \<le> 2 ^ 1024 - 2 ^ 971"
  proof (cases "k = 1023")
    case True
    then have e: "e = 971" by (simp add: e_def)
    have "\<bar>x\<bar> / pow2 e < (2 ^ 1024 - 2 ^ 970) / pow2 e"
      using assms by (simp add: divide_strict_right_mono)
    also have "\<dots> = 9007199254740992 - 1 / 2" by (simp add: e pow2_def)
    finally have "\<bar>x\<bar> / pow2 e < 9007199254740992 - 1 / 2" .
    with mq have "of_int m < (9007199254740992 :: rat)" by linarith
    then have "m < 9007199254740992" by (metis of_int_less_iff of_int_numeral)
    then have "m \<le> 9007199254740991" by simp
    then have "(of_int m :: rat) \<le> 9007199254740991" by (metis of_int_le_iff of_int_numeral)
    then have "y \<le> 9007199254740991 * pow2 e"
      unfolding y_def by (simp add: mult_right_mono)
    also have "\<dots> = 2 ^ 1024 - 2 ^ 971" by (simp add: e pow2_def)
    finally show ?thesis .
  next
    case False
    with k have k2: "k + 1 \<le> 1023" "e \<le> 970" by (simp_all add: e_def)
    have "y \<le> (\<bar>x\<bar> / pow2 e + 1 / 2) * pow2 e"
      unfolding y_def using mq by (simp add: mult_right_mono)
    also have "\<dots> = \<bar>x\<bar> + pow2 e / 2" by (simp add: field_simps)
    also have "\<dots> \<le> pow2 (k + 1) + pow2 e / 2" using b(2) by simp
    also have "\<dots> \<le> pow2 1023 + pow2 970 / 2"
      using pow2_mono [OF k2(1)] pow2_mono [OF k2(2)] by simp
    also have "\<dots> \<le> 2 ^ 1024 - 2 ^ 971" by (simp add: pow2_def)
    finally show ?thesis .
  qed
  then have "y < pow2 1024" by (simp add: pow2_def)
  then have "fl x = Some (if 0 < x then y else - y)"
    using False by (simp add: fl_def Let_def k_def e_def m_def y_def)
  with yb y0 show ?thesis by auto
qed

subsection \<open>The stable sort\<close>

lemma py_insert_total:
  assumes "\<forall>y\<in>set ys. lt x y = Inr (k x < k y)"
  shows "py_insert lt x ys
    = Inr (takeWhile (\<lambda>y. \<not> k x < k y) ys @ x # dropWhile (\<lambda>y. \<not> k x < k y) ys)"
  using assms by (induction ys) (auto simp: py_then_def)

lemma sorted_insert_key:
  fixes k :: "'a \<Rightarrow> 'k::linorder"
  assumes "sorted (map k ys)"
  shows "sorted (map k (takeWhile (\<lambda>y. \<not> k x < k y) ys @ x # dropWhile (\<lambda>y. \<not> k x < k y) ys))"
  using assms
proof (induction ys)
  case Nil
  then show ?case by simp
next
  case (Cons y ys)
  show ?case
  proof (cases "k x < k y")
    case True
    with Cons.prems show ?thesis by (auto simp: less_imp_le)
  next
    case False
    have "set (takeWhile (\<lambda>y. \<not> k x < k y) ys @ x # dropWhile (\<lambda>y. \<not> k x < k y) ys)
        = insert x (set ys)"
      by (metis list.set(2) set_append takeWhile_dropWhile_id Un_insert_right)
    with False Cons show ?thesis by (auto simp: not_less)
  qed
qed

lemma filter_insert_key:
  fixes k :: "'a \<Rightarrow> 'k::linorder"
  assumes "sorted (map k ys)"
  shows "filter (\<lambda>a. k a = v)
      (takeWhile (\<lambda>y. \<not> k x < k y) ys @ x # dropWhile (\<lambda>y. \<not> k x < k y) ys)
    = filter (\<lambda>a. k a = v) ys @ filter (\<lambda>a. k a = v) [x]"
  using assms
proof (induction ys)
  case Nil
  then show ?case by simp
next
  case (Cons y ys)
  show ?case
  proof (cases "k x < k y")
    case True
    with Cons.prems have "\<forall>z\<in>set (y # ys). k x < k z" by auto
    then have "k x = v \<Longrightarrow> filter (\<lambda>a. k a = v) (y # ys) = []"
      by (auto simp: filter_empty_conv)
    with True show ?thesis by auto
  next
    case False
    with Cons show ?thesis by auto
  qed
qed

lemma py_sort_total:
  fixes k :: "'a \<Rightarrow> 'k::linorder"
  assumes "\<forall>a\<in>set xs \<union> set acc. \<forall>b\<in>set xs \<union> set acc. lt a b = Inr (k a < k b)"
    and "sorted (map k acc)"
  shows "\<exists>zs. py_sort lt xs acc = Inr zs \<and> mset zs = mset acc + mset xs \<and>
           sorted (map k zs) \<and>
           (\<forall>v. filter (\<lambda>a. k a = v) zs = filter (\<lambda>a. k a = v) acc @ filter (\<lambda>a. k a = v) xs)"
  using assms
proof (induction xs arbitrary: acc)
  case Nil
  then show ?case by simp
next
  case (Cons x xs)
  let ?acc = "takeWhile (\<lambda>y. \<not> k x < k y) acc @ x # dropWhile (\<lambda>y. \<not> k x < k y) acc"
  have ins: "py_insert lt x acc = Inr ?acc"
    by (rule py_insert_total) (use Cons.prems(1) in auto)
  have set: "set ?acc = insert x (set acc)"
    by (metis list.set(2) set_append takeWhile_dropWhile_id Un_insert_right)
  have ms: "mset ?acc = add_mset x (mset acc)"
    by (metis add_mset_add_single mset.simps(2) mset_append takeWhile_dropWhile_id
        union_mset_add_mset_right)
  have srt: "sorted (map k ?acc)"
    by (rule sorted_insert_key [OF Cons.prems(2)])
  have "\<forall>a\<in>set xs \<union> set ?acc. \<forall>b\<in>set xs \<union> set ?acc. lt a b = Inr (k a < k b)"
    using Cons.prems(1) unfolding set by auto
  from Cons.IH [OF this srt] obtain zs where
    zs: "py_sort lt xs ?acc = Inr zs" "mset zs = mset ?acc + mset xs" "sorted (map k zs)"
        "\<forall>v. filter (\<lambda>a. k a = v) zs = filter (\<lambda>a. k a = v) ?acc @ filter (\<lambda>a. k a = v) xs"
    by blast
  show ?case
  proof (intro exI [of _ zs] conjI allI)
    show "py_sort lt (x # xs) acc = Inr zs"
      using ins zs(1) by (simp add: py_then_def)
    show "mset zs = mset acc + mset (x # xs)"
      using zs(2) ms by simp
    show "sorted (map k zs)" by (rule zs(3))
    fix v
    have "filter (\<lambda>a. k a = v) zs = filter (\<lambda>a. k a = v) ?acc @ filter (\<lambda>a. k a = v) xs"
      using zs(4) by blast
    also have "filter (\<lambda>a. k a = v) ?acc = filter (\<lambda>a. k a = v) acc @ filter (\<lambda>a. k a = v) [x]"
      by (rule filter_insert_key [OF Cons.prems(2)])
    finally show
      "filter (\<lambda>a. k a = v) zs = filter (\<lambda>a. k a = v) acc @ filter (\<lambda>a. k a = v) (x # xs)"
      by simp
  qed
qed

lemma sorted_reverse_total:
  fixes k :: "'a \<Rightarrow> 'k::linorder"
  assumes "\<forall>a\<in>set xs. \<forall>b\<in>set xs. lt a b = Inr (k a < k b)"
  shows "\<exists>ys. sorted_reverse lt xs = Inr ys \<and> mset ys = mset xs \<and>
           sorted_wrt (\<lambda>a b. k b \<le> k a) ys \<and>
           (\<forall>v. filter (\<lambda>a. k a = v) ys = filter (\<lambda>a. k a = v) xs)"
proof -
  have "\<forall>a\<in>set (rev xs) \<union> set []. \<forall>b\<in>set (rev xs) \<union> set []. lt a b = Inr (k a < k b)"
    using assms by simp
  from py_sort_total [where k = k, OF this] obtain zs where
    zs: "py_sort lt (rev xs) [] = Inr zs" "mset zs = mset [] + mset (rev xs)" "sorted (map k zs)"
        "\<forall>v. filter (\<lambda>a. k a = v) zs = filter (\<lambda>a. k a = v) [] @ filter (\<lambda>a. k a = v) (rev xs)"
    by auto
  show ?thesis
  proof (intro exI [of _ "rev zs"] conjI allI)
    show "sorted_reverse lt xs = Inr (rev zs)"
      using zs(1) by (simp add: sorted_reverse_def py_then_def)
    show "mset (rev zs) = mset xs" using zs(2) by simp
    have "sorted_wrt (\<lambda>a b. k a \<le> k b) zs"
      using zs(3) by (simp add: sorted_map)
    then show "sorted_wrt (\<lambda>a b. k b \<le> k a) (rev zs)"
      by (simp add: sorted_wrt_rev)
    fix v
    have "filter (\<lambda>a. k a = v) (rev zs) = rev (filter (\<lambda>a. k a = v) zs)"
      by (simp add: rev_filter)
    also have "\<dots> = filter (\<lambda>a. k a = v) xs"
      using zs(4) by (simp add: rev_filter)
    finally show "filter (\<lambda>a. k a = v) (rev zs) = filter (\<lambda>a. k a = v) xs" .
  qed
qed

subsection \<open>The two loops of \<^verbatim>\<open>ComputeAverage\<close>\<close>

lemma map_of_dict_set: "map_of (dict_set d k v) = (map_of d)(k \<mapsto> v)"
  by (induction d k v rule: dict_set.induct) auto

lemma keys_dict_set:
  "map fst (dict_set d k v) = (if k \<in> set (map fst d) then map fst d else map fst d @ [k])"
  by (induction d k v rule: dict_set.induct) auto

lemma dict_get_dict_set:
  "dict_get (dict_set d k v) k' w = (if k' = k then v else dict_get d k' w)"
  by (simp add: dict_get_def map_of_dict_set)

lemma accumulate_Inr:
  assumes "accumulate ls (D, C) = Inr (D', C')"
    and "map fst D = map fst C" "distinct (map fst D)" "\<forall>c\<in>snd ` set C. 1 \<le> c"
  shows "map fst D' = map fst C' \<and> distinct (map fst D') \<and> (\<forall>c\<in>snd ` set C'. 1 \<le> c) \<and>
         set (map fst D') = set (map fst D) \<union> Name ` set ls \<and>
         (\<forall>name. dict_get D' name 0 = dict_get D name 0 + region_sum ls name) \<and>
         (\<forall>name. dict_get C' name 0 = dict_get C name 0 + region_count ls name)"
  using assms
proof (induction ls arbitrary: D C)
  case Nil
  then show ?case by (simp add: region_sum_def region_count_def)
next
  case (Cons l ls)
  from Cons.prems(1) obtain v where v: "NewCases l = IntV v"
    by (cases "NewCases l") (auto simp: py_then_def)
  let ?D = "dict_set D (Name l) (dict_get D (Name l) 0 + v)"
  let ?C = "dict_set C (Name l) (dict_get C (Name l) 0 + 1)"
  from Cons.prems(1) v have acc: "accumulate ls (?D, ?C) = Inr (D', C')"
    by (simp add: py_then_def)
  have keys: "map fst ?D = map fst ?C"
    using Cons.prems(2) by (simp add: keys_dict_set)
  have dist: "distinct (map fst ?D)"
    using Cons.prems(3) by (simp add: keys_dict_set)
  have nonneg: "0 \<le> dict_get C (Name l) 0"
    using Cons.prems(4) by (auto simp: dict_get_def split: option.splits dest!: map_of_SomeD)
  have "\<forall>c\<in>snd ` set ?C. 1 \<le> c"
  proof
    fix c assume "c \<in> snd ` set ?C"
    then obtain k where "(k, c) \<in> set ?C" by auto
    moreover have "distinct (map fst ?C)" using dist keys by simp
    ultimately have m: "map_of ?C k = Some c" by simp
    show "1 \<le> c"
    proof (cases "k = Name l")
      case True
      with m nonneg show ?thesis by (simp add: map_of_dict_set)
    next
      case False
      with m have "map_of C k = Some c" by (simp add: map_of_dict_set)
      then have "(k, c) \<in> set C" by (rule map_of_SomeD)
      with Cons.prems(4) show ?thesis by force
    qed
  qed
  from Cons.IH [OF acc keys dist this]
  have ih: "map fst D' = map fst C'" "distinct (map fst D')" "\<forall>c\<in>snd ` set C'. 1 \<le> c"
      "set (map fst D') = set (map fst ?D) \<union> Name ` set ls"
      "\<forall>name. dict_get D' name 0 = dict_get ?D name 0 + region_sum ls name"
      "\<forall>name. dict_get C' name 0 = dict_get ?C name 0 + region_count ls name"
    by blast+
  show ?case
  proof (intro conjI allI)
    show "map fst D' = map fst C'" by (rule ih(1))
    show "distinct (map fst D')" by (rule ih(2))
    show "\<forall>c\<in>snd ` set C'. 1 \<le> c" by (rule ih(3))
    show "set (map fst D') = set (map fst D) \<union> Name ` set (l # ls)"
      using ih(4) by (auto simp: keys_dict_set)
    fix name
    show "dict_get D' name 0 = dict_get D name 0 + region_sum (l # ls) name"
      using ih(5) v by (simp add: dict_get_dict_set region_sum_def)
    show "dict_get C' name 0 = dict_get C name 0 + region_count (l # ls) name"
      using ih(6) by (simp add: dict_get_dict_set region_count_def)
  qed
qed

lemma accumulate_ints:
  "\<forall>l\<in>set ls. NewCases l \<noteq> NanStr \<Longrightarrow> \<exists>D' C'. accumulate ls (D, C) = Inr (D', C')"
proof (induction ls arbitrary: D C)
  case Nil
  then show ?case by simp
next
  case (Cons l ls)
  then obtain v where "NewCases l = IntV v" by (cases "NewCases l") auto
  with Cons show ?case by (simp add: py_then_def)
qed

lemma accumulate_sentinel:
  "\<exists>l\<in>set ls. NewCases l = NanStr \<Longrightarrow> accumulate ls (D, C) = Inl TypeError"
proof (induction ls arbitrary: D C)
  case Nil
  then show ?case by simp
next
  case (Cons l ls)
  then show ?case by (cases "NewCases l") (auto simp: py_then_def)
qed

lemma round2_defined:
  assumes "\<bar>x\<bar> < 2 ^ 1024 - 2 ^ 970"
  shows "\<exists>q r. fl x = Some q \<and> fl (of_int (round_half_even (q * 100)) / 100) = Some r"
proof -
  from fl_range [OF assms] obtain q where q: "fl x = Some q" "\<bar>q\<bar> \<le> 2 ^ 1024 - 2 ^ 971"
    by blast
  define i where "i = round_half_even (q * 100)"
  from round_half_even_bounds [of "q * 100"]
  have "of_int i \<le> q * 100 + 1 / 2" "q * 100 - 1 / 2 \<le> of_int i"
    by (simp_all add: i_def)
  then have "\<bar>(of_int i :: rat) / 100\<bar> \<le> \<bar>q\<bar> + 1 / 200"
    by (simp add: abs_le_iff field_simps)
  also have "\<dots> < 2 ^ 1024 - 2 ^ 970" using q(2) by simp
  finally obtain r where "fl (of_int i / 100) = Some r"
    using fl_range by blast
  with q(1) show ?thesis by (auto simp: i_def)
qed

lemma averages_Inr:
  assumes "\<forall>(name, s)\<in>set D. \<exists>c q r. map_of C name = Some c \<and> c \<noteq> 0 \<and>
             fl (of_int s / of_int c) = Some q \<and>
             fl (of_int (round_half_even (q * 100)) / 100) = Some r"
  shows "\<exists>m. averages D C = Inr m \<and> map fst m = map fst D \<and>
           (\<forall>name s. (name, s) \<in> set D \<longrightarrow>
              (\<exists>c q r. map_of C name = Some c \<and> fl (of_int s / of_int c) = Some q \<and>
                 fl (of_int (round_half_even (q * 100)) / 100) = Some r \<and>
                 (name, Fin r) \<in> set m))"
  using assms
proof (induction D)
  case Nil
  then show ?case by simp
next
  case (Cons p D)
  obtain name s where p: "p = (name, s)" by (cases p)
  from Cons.prems p obtain c q r where
    c: "map_of C name = Some c" "c \<noteq> 0" "fl (of_int s / of_int c) = Some q"
       "fl (of_int (round_half_even (q * 100)) / 100) = Some r"
    by auto
  from Cons.IH Cons.prems obtain m where
    m: "averages D C = Inr m" "map fst m = map fst D"
       "\<forall>name s. (name, s) \<in> set D \<longrightarrow>
              (\<exists>c q r. map_of C name = Some c \<and> fl (of_int s / of_int c) = Some q \<and>
                 fl (of_int (round_half_even (q * 100)) / 100) = Some r \<and>
                 (name, Fin r) \<in> set m)"
    by auto
  have av: "averages (p # D) C = Inr ((name, Fin r) # m)"
    using c m(1) by (simp add: p py_then_def dict_item_def int_truediv_def)
  have rest: "\<exists>c' q' r'. map_of C name' = Some c' \<and> fl (of_int s' / of_int c') = Some q' \<and>
                 fl (of_int (round_half_even (q' * 100)) / 100) = Some r' \<and>
                 (name', Fin r') \<in> set ((name, Fin r) # m)"
    if "(name', s') \<in> set (p # D)" for name' s'
  proof (cases "(name', s') \<in> set D")
    case True
    with m(3) show ?thesis by fastforce
  next
    case False
    with that p have "name' = name" "s' = s" by auto
    with c show ?thesis by auto
  qed
  have keys: "map fst ((name, Fin r) # m) = map fst (p # D)"
    using m(2) p by simp
  show ?case
    by (rule exI [of _ "(name, Fin r) # m"]) (intro conjI allI impI av keys rest)
qed

lemma averages_Inl:
  assumes "averages D C = Inl e"
    and "\<forall>(name, s)\<in>set D. \<exists>c. map_of C name = Some c \<and> c \<noteq> 0"
  shows "e = OverflowError"
  using assms
proof (induction D arbitrary: e)
  case Nil
  then show ?case by simp
next
  case (Cons p D)
  obtain name s where p: "p = (name, s)" by (cases p)
  from Cons.prems(2) p obtain c where c: "map_of C name = Some c" "c \<noteq> 0" by auto
  show ?case
  proof (cases "averages D C")
    case (Inl e')
    with Cons have e': "e' = OverflowError" by auto
    with Cons.prems(1) Inl c show ?thesis
      by (cases "fl (of_int s / of_int c)")
        (auto simp: p py_then_def dict_item_def int_truediv_def split: option.splits)
  next
    case (Inr m)
    with Cons.prems(1) c show ?thesis
      by (cases "fl (of_int s / of_int c)")
        (auto simp: p py_then_def dict_item_def int_truediv_def split: option.splits)
  qed
qed

subsection \<open>Exceptions of the sort\<close>

lemma py_insert_Inl:
  "py_insert lt x ys = Inl e \<Longrightarrow> \<exists>y\<in>set ys. lt x y = Inl e"
proof (induction ys)
  case Nil
  then show ?case by simp
next
  case (Cons y ys)
  show ?case
  proof (cases "lt x y")
    case (Inl e')
    with Cons.prems show ?thesis by (simp add: py_then_def)
  next
    case (Inr b)
    show ?thesis
    proof (cases b)
      case True
      with Inr Cons.prems show ?thesis by (simp add: py_then_def)
    next
      case False
      with Inr Cons.prems have "py_insert lt x ys = Inl e"
        by (cases "py_insert lt x ys") (simp_all add: py_then_def)
      with Cons.IH show ?thesis by auto
    qed
  qed
qed

lemma py_insert_set:
  "py_insert lt x ys = Inr zs \<Longrightarrow> set zs = insert x (set ys)"
proof (induction ys arbitrary: zs)
  case Nil
  then show ?case by auto
next
  case (Cons y ys)
  show ?case
  proof (cases "lt x y")
    case (Inl e')
    with Cons.prems show ?thesis by (simp add: py_then_def)
  next
    case (Inr b)
    show ?thesis
    proof (cases b)
      case True
      with Inr Cons.prems show ?thesis by (auto simp: py_then_def)
    next
      case False
      with Inr Cons.prems obtain zs' where "py_insert lt x ys = Inr zs'" "zs = y # zs'"
        by (cases "py_insert lt x ys") (auto simp: py_then_def)
      with Cons.IH show ?thesis by auto
    qed
  qed
qed

lemma py_sort_Inl:
  "py_sort lt xs acc = Inl e \<Longrightarrow> \<exists>a\<in>set xs \<union> set acc. \<exists>b\<in>set xs \<union> set acc. lt a b = Inl e"
proof (induction xs arbitrary: acc)
  case Nil
  then show ?case by simp
next
  case (Cons x xs)
  show ?case
  proof (cases "py_insert lt x acc")
    case (Inl e')
    with Cons.prems have "e' = e" by (simp add: py_then_def)
    with py_insert_Inl [OF Inl] show ?thesis by auto
  next
    case (Inr acc')
    with Cons.prems have "py_sort lt xs acc' = Inl e" by (simp add: py_then_def)
    from Cons.IH [OF this] py_insert_set [OF Inr] show ?thesis by auto
  qed
qed

text \<open>An element on which every comparison raises, on either side, makes the sort of
  two or more elements raise.\<close>

lemma py_sort_fails:
  fixes bad :: "'a \<Rightarrow> bool"
  assumes left: "\<And>a y. bad a \<Longrightarrow> \<exists>e. lt a y = Inl e"
    and right: "\<And>a y. bad a \<Longrightarrow> \<exists>e. lt y a = Inl e"
    and "z \<in> set xs" and "bad z" and "acc \<noteq> [] \<or> 2 \<le> length xs"
    and "\<forall>a\<in>set acc. \<not> bad a"
  shows "\<exists>e. py_sort lt xs acc = Inl e"
  using assms(3-)
proof (induction xs arbitrary: acc)
  case Nil
  then show ?case by simp
next
  case (Cons x xs)
  show ?case
  proof (cases "py_insert lt x acc")
    case (Inl e)
    then show ?thesis by (simp add: py_then_def)
  next
    case (Inr acc')
    note set = py_insert_set [OF Inr]
    show ?thesis
    proof (cases "bad x")
      case True
      have "acc = []"
      proof (cases acc)
        case (Cons a as)
        from left [OF True, of a] obtain e where "lt x a = Inl e" by blast
        with Cons Inr show ?thesis by (simp add: py_then_def)
      qed simp
      with Inr have acc': "acc' = [x]" by simp
      from Cons.prems(3) \<open>acc = []\<close> obtain x2 xs2 where xs: "xs = x2 # xs2"
        by (cases xs) auto
      from right [OF True, of x2] obtain e where "lt x2 x = Inl e" by blast
      then show ?thesis
        using Inr acc' xs by (simp add: py_then_def)
    next
      case False
      with Cons.prems(1,2) have z: "z \<in> set xs" by auto
      have ne: "acc' \<noteq> [] \<or> 2 \<le> length xs" using set by auto
      have ok: "\<forall>a\<in>set acc'. \<not> bad a"
        using set False Cons.prems(4) by auto
      from Cons.IH [OF z Cons.prems(2) ne ok] obtain e where "py_sort lt xs acc' = Inl e" ..
      then show ?thesis using Inr by (simp add: py_then_def)
    qed
  qed
qed

lemma sorted_reverse_fails:
  fixes bad :: "'a \<Rightarrow> bool"
  assumes left: "\<And>a y. bad a \<Longrightarrow> \<exists>e. lt a y = Inl e"
    and right: "\<And>a y. bad a \<Longrightarrow> \<exists>e. lt y a = Inl e"
    and "z \<in> set xs" and "bad z" and "2 \<le> length xs"
  shows "\<exists>e a b. sorted_reverse lt xs = Inl e \<and> a \<in> set xs \<and> b \<in> set xs \<and> lt a b = Inl e"
proof -
  have "\<exists>e. py_sort lt (rev xs) [] = Inl e"
    by (rule py_sort_fails [where bad = bad and z = z, OF left right]) (use assms(3-) in auto)
  then obtain e where e: "py_sort lt (rev xs) [] = Inl e" ..
  from py_sort_Inl [OF this] obtain a b where "a \<in> set xs" "b \<in> set xs" "lt a b = Inl e"
    by auto
  with e show ?thesis by (auto simp: sorted_reverse_def py_then_def)
qed

subsection \<open>Ratios\<close>

lemma ratio_defined:
  assumes "has_ratio r"
  shows "\<exists>q. ratio r = Inr (Fin q)"
proof -
  from assms obtain d t where
    dt: "Deaths r = IntV d" "TotalCases r = IntV t" "t \<noteq> 0"
        "float_range (of_int d)" "float_range (of_int t)"
    by (auto simp: has_ratio_def split: numfield.splits)
  from fl_range [of "of_int d"] dt(4) obtain x where
    x: "fl (of_int d) = Some x" "\<bar>x\<bar> \<le> 2 ^ 1024 - 2 ^ 971"
    by (auto simp: float_range_def)
  from fl_range [of "of_int t"] dt(5) obtain y where y: "fl (of_int t) = Some y"
    by (auto simp: float_range_def)
  have "1 \<le> \<bar>t\<bar>" using dt(3) by simp
  then have "(of_int 1 :: rat) \<le> of_int \<bar>t\<bar>" by (simp only: of_int_le_iff)
  then have "(1::rat) \<le> \<bar>of_int t\<bar>" by simp
  from fl_ge_one [OF this y] have y1: "1 \<le> \<bar>y\<bar>" .
  then have y0: "y \<noteq> 0" by auto
  have "\<bar>x / y\<bar> \<le> \<bar>x\<bar>"
    using y1 by (simp add: field_simps mult_le_cancel_left1)
  with x(2) have "\<bar>x / y\<bar> < 2 ^ 1024 - 2 ^ 970" by simp
  from fl_range [OF this] obtain q where "fl (x / y) = Some q" by blast
  then show ?thesis
    using dt(1,2) x(1) y y0 by (simp add: ratio_def py_then_def)
qed

lemma ratio_value_eq: "has_ratio r \<Longrightarrow> ratio r = Inr (Fin (ratio_value r))"
  using ratio_defined [of r] by (auto simp: ratio_value_def)

lemma Region_lt_total:
  "has_ratio a \<Longrightarrow> has_ratio b \<Longrightarrow> Region_lt a b = Inr (ratio_value a < ratio_value b)"
  by (simp add: Region_lt_def ratio_value_eq py_then_def)

text \<open>
  Claim C1, as amended. For every sequence of observations that all have a ratio
  (deaths and total cases are integers in the range of the floats, total cases not
  zero) and every count \<open>n \<ge> 0\<close>, \<^verbatim>\<open>TopRegion\<close> returns the first \<open>n\<close> elements of a
  rearrangement \<open>ys\<close> of the sequence, so exactly \<open>min n (length obs)\<close> observations;
  \<open>ys\<close> is ordered by the ratio \<^verbatim>\<open>float(Deaths) / TotalCases\<close>, descending; and the
  observations of any one ratio are in \<open>ys\<close> in the order they have in the input.
\<close>

theorem TopRegion_sorted:
  assumes "\<forall>r\<in>set obs. has_ratio r" and "0 \<le> n"
  shows "\<exists>ys. TopRegion obs n = Inr (take (nat n) ys) \<and>
           length (take (nat n) ys) = min (nat n) (length obs) \<and>
           mset ys = mset obs \<and>
           (\<forall>r\<in>set obs. ratio r = Inr (Fin (ratio_value r))) \<and>
           sorted_wrt (\<lambda>a b. ratio_value b \<le> ratio_value a) ys \<and>
           (\<forall>v. filter (\<lambda>r. ratio_value r = v) ys = filter (\<lambda>r. ratio_value r = v) obs)"
proof -
  have "\<forall>a\<in>set obs. \<forall>b\<in>set obs. Region_lt a b = Inr (ratio_value a < ratio_value b)"
    using assms(1) by (simp add: Region_lt_total)
  from sorted_reverse_total [OF this] obtain ys where
    ys: "sorted_reverse Region_lt obs = Inr ys" "mset ys = mset obs"
        "sorted_wrt (\<lambda>a b. ratio_value b \<le> ratio_value a) ys"
        "\<forall>v. filter (\<lambda>r. ratio_value r = v) ys = filter (\<lambda>r. ratio_value r = v) obs"
    by blast
  have len: "length ys = length obs"
    using ys(2) by (rule mset_eq_length)
  have top: "TopRegion obs n = Inr (take (nat n) ys)"
    using ys(1) assms(2) by (simp add: TopRegion_def py_then_def py_slice_nonneg)
  show ?thesis
    by (rule exI [of _ ys]) (use top len ys assms(1) in \<open>simp add: ratio_value_eq min.commute\<close>)
qed

subsection \<open>Division by zero in the ranking\<close>

lemma fl_zero [simp]: "fl 0 = Some 0"
  by (simp add: fl_def)

lemma float_of_Inl: "float_of f = Inl e \<Longrightarrow> e = OverflowError \<and> \<not> convertible f"
proof (cases f)
  case (IntV i)
  assume "float_of f = Inl e"
  with IntV have "fl (of_int i) = None" "e = OverflowError"
    by (auto split: option.splits)
  with fl_range [of "of_int i"] IntV show ?thesis
    by (auto simp: float_range_def)
qed simp

lemma float_truediv_Inl:
  assumes "float_truediv a (IntV t) = Inl e"
  shows "is_ArithmeticError e \<and> (float_range (of_int t) \<longrightarrow> e = ZeroDivisionError)"
proof (cases "fl (of_int t)")
  case None
  with assms have "e = OverflowError" by simp
  moreover have "\<not> float_range (of_int t)"
    using None fl_range [of "of_int t"] by (auto simp: float_range_def)
  ultimately show ?thesis by simp
next
  case (Some y)
  with assms have "e = ZeroDivisionError" by (simp split: if_splits)
  then show ?thesis by simp
qed

lemma ratio_Inl:
  assumes "ratio r = Inl e" "TotalCases r = IntV t"
  shows "is_ArithmeticError e \<and>
         (convertible (Deaths r) \<and> total_in_range r \<longrightarrow> e = ZeroDivisionError)"
proof (cases "float_of (Deaths r)")
  case (Inl e')
  with assms(1) have "e' = e" by (simp add: ratio_def py_then_def)
  with float_of_Inl [OF Inl] show ?thesis by simp
next
  case (Inr a)
  with assms have "float_truediv a (IntV t) = Inl e" by (simp add: ratio_def py_then_def)
  from float_truediv_Inl [OF this] assms(2) show ?thesis
    by (simp add: total_in_range_def)
qed

lemma ratio_zero_total:
  assumes "TotalCases r = IntV 0"
  shows "\<exists>e. ratio r = Inl e"
proof (cases "float_of (Deaths r)")
  case (Inl e)
  then show ?thesis by (simp add: ratio_def py_then_def)
next
  case (Inr a)
  with assms show ?thesis by (simp add: ratio_def py_then_def)
qed

lemma Region_lt_Inl:
  "Region_lt a b = Inl e \<Longrightarrow> ratio a = Inl e \<or> ratio b = Inl e"
  by (cases "ratio a"; cases "ratio b") (simp_all add: Region_lt_def py_then_def)

lemma Region_lt_left: "\<exists>e. ratio a = Inl e \<Longrightarrow> \<exists>e. Region_lt a y = Inl e"
  by (auto simp: Region_lt_def py_then_def)

lemma Region_lt_right: "\<exists>e. ratio a = Inl e \<Longrightarrow> \<exists>e. Region_lt y a = Inl e"
  by (cases "ratio y") (auto simp: Region_lt_def py_then_def)

text \<open>
  Claim C7, as amended. For every sequence of at least two observations whose total
  cases are all integers, one of them zero, \<^verbatim>\<open>TopRegion\<close> raises an arithmetic error
  and returns nothing: the division is not guarded. The error is
  \<^verbatim>\<open>ZeroDivisionError\<close> when all deaths and total cases can be converted to floats
  (otherwise it may be the \<^verbatim>\<open>OverflowError\<close> of such a conversion).
\<close>

theorem TopRegion_zero_total:
  assumes "2 \<le> length obs"
    and "\<forall>r\<in>set obs. \<exists>t. TotalCases r = IntV t"
    and "\<exists>r\<in>set obs. TotalCases r = IntV 0"
  shows "\<exists>e. TopRegion obs n = Inl e \<and> is_ArithmeticError e \<and>
           ((\<forall>r\<in>set obs. convertible (Deaths r) \<and> total_in_range r) \<longrightarrow> e = ZeroDivisionError)"
proof -
  from assms(3) obtain z where z: "z \<in> set obs" "TotalCases z = IntV 0" by blast
  have bad: "\<exists>e. ratio z = Inl e" using z(2) by (rule ratio_zero_total)
  have "\<exists>e a b. sorted_reverse Region_lt obs = Inl e \<and> a \<in> set obs \<and> b \<in> set obs \<and>
          Region_lt a b = Inl e"
    by (rule sorted_reverse_fails [where bad = "\<lambda>r. \<exists>e. ratio r = Inl e" and z = z])
      (use z(1) bad assms(1) Region_lt_left Region_lt_right in auto)
  then obtain e a b where
    e: "sorted_reverse Region_lt obs = Inl e" "a \<in> set obs" "b \<in> set obs" "Region_lt a b = Inl e"
    by blast
  from Region_lt_Inl [OF e(4)] e(2,3) obtain r where r: "r \<in> set obs" "ratio r = Inl e"
    by blast
  from assms(2) r(1) obtain t where t: "TotalCases r = IntV t" by blast
  from ratio_Inl [OF r(2) t] r(1) e(1) show ?thesis
    by (intro exI [of _ e]) (auto simp: TopRegion_def py_then_def)
qed

text \<open>
  The claim as stated, for every sequence with an observation of zero total cases,
  fails on the sequence of that one observation: a list of one element is sorted
  without a comparison, no ratio is computed, and \<^verbatim>\<open>TopRegion\<close> returns the list.
\<close>

theorem TopRegion_single_zero:
  "TopRegion [observation ''Molise'' 0 22 0] 3 = Inr [observation ''Molise'' 0 22 0]"
  by (simp add: TopRegion_def sorted_reverse_def py_then_def py_slice_nonneg)

subsection \<open>Floats of small integers and of some fractions\<close>

lemma fl_int_exact:
  assumes "\<bar>i\<bar> < 2 ^ 53"
  shows "fl (of_int i) = Some (of_int i)"
proof (cases "i = 0")
  case True
  then show ?thesis by simp
next
  case False
  define x :: rat where "x = of_int i"
  define k where "k = ilog2 \<bar>x\<bar>"
  define e where "e = max (k - 52) (- 1074)"
  have xp: "0 < \<bar>x\<bar>" using False by (simp add: x_def)
  from ilog2_bounds [OF xp] have b: "pow2 k \<le> \<bar>x\<bar>" "\<bar>x\<bar> < pow2 (k + 1)"
    by (simp_all add: k_def)
  have "1 \<le> \<bar>i\<bar>" using False by simp
  then have "(of_int 1 :: rat) \<le> of_int \<bar>i\<bar>" by (simp only: of_int_le_iff)
  then have x1: "1 \<le> \<bar>x\<bar>" by (simp add: x_def)
  have "(of_int \<bar>i\<bar> :: rat) < of_int (2 ^ 53)" using assms by (simp only: of_int_less_iff)
  then have x53: "\<bar>x\<bar> < pow2 53" by (simp add: x_def pow2_def)
  have "pow2 0 < pow2 (k + 1)" using x1 b(2) by (simp add: pow2_def)
  then have k0: "0 < k + 1" using pow2_mono [of "k + 1" 0] by (cases "0 < k + 1") auto
  have "pow2 k < pow2 53" using b(1) x53 by simp
  then have k53: "k < 53" using pow2_mono [of 53 k] by (cases "k < 53") auto
  have e: "e = k - 52" "e \<le> 0" using k0 k53 by (simp_all add: e_def)
  define n where "n = nat (- e)"
  have pe: "pow2 e = 1 / 2 ^ n"
    using e(2) by (cases "e = 0") (simp_all add: pow2_def n_def)
  have q: "\<bar>x\<bar> / pow2 e = of_int (\<bar>i\<bar> * 2 ^ n)"
    by (simp add: pe x_def)
  have m: "round_half_even (\<bar>x\<bar> / pow2 e) = \<bar>i\<bar> * 2 ^ n"
    unfolding q by (rule round_half_even_of_int)
  have y: "of_int (\<bar>i\<bar> * 2 ^ n) * pow2 e = \<bar>x\<bar>"
    by (simp add: pe x_def)
  have yy: "of_int (round_half_even (\<bar>x\<bar> / pow2 e)) * pow2 e = \<bar>x\<bar>"
    by (simp only: m y)
  have lt: "\<not> pow2 1024 \<le> \<bar>x\<bar>"
    using x53 pow2_mono [of 53 1024] by simp
  have ne: "x \<noteq> 0" using xp by simp
  have "fl x = (if pow2 1024 \<le> \<bar>x\<bar> then None else Some (if 0 < x then \<bar>x\<bar> else - \<bar>x\<bar>))"
    using fl_eq [OF ne, folded k_def, folded e_def] by (simp only: yy)
  with lt have "fl x = Some (if 0 < x then \<bar>x\<bar> else - \<bar>x\<bar>)" by simp
  then show ?thesis by (simp add: x_def)
qed

lemma round_half_even_numeral_int [simp]: "round_half_even (numeral w) = numeral w"
  using round_half_even_of_int [of "numeral w"] by simp

lemma fl_numeral [simp]:
  "numeral w < (2 ^ 53 :: int) \<Longrightarrow> fl (numeral w) = Some (numeral w)"
  using fl_int_exact [of "numeral w"] by simp

lemma fl_one [simp]: "fl 1 = Some 1"
  using fl_int_exact [of 1] by simp

lemma fl_quarter: "fl (1 / 4) = Some (1 / 4)"
  by (rule fl_eval [where k = "- 2" and m = 4503599627370496]) (simp_all add: pow2_def)

lemma fl_half: "fl (1 / 2) = Some (1 / 2)"
  by (rule fl_eval [where k = "- 1" and m = 4503599627370496]) (simp_all add: pow2_def)

lemma fl_three_halves: "fl (3 / 2) = Some (3 / 2)"
  by (rule fl_eval [where k = "0" and m = 6755399441055744]) (simp_all add: pow2_def)

lemma fl_four_thirds: "fl (4 / 3) = Some (6004799503160661 / 4503599627370496)"
  by (rule fl_eval [where k = "0" and m = 6004799503160661]) (simp_all add: pow2_def)

lemma fl_1_33: "fl (133 / 100) = Some (748723438050345 / 562949953421312)"
  by (rule fl_eval [where k = "0" and m = 5989787504402760]) (simp_all add: pow2_def)

lemma fl_1_40: "fl (1 / 40) = Some (3602879701896397 / 144115188075855872)"
  by (rule fl_eval [where k = "- 6" and m = 7205759403792794]) (simp_all add: pow2_def)

lemma fl_0_03: "fl (3 / 100) = Some (1080863910568919 / 36028797018963968)"
  by (rule fl_eval [where k = "- 6" and m = 8646911284551352]) (simp_all add: pow2_def)

lemma fl_0_02: "fl (1 / 50) = Some (5764607523034235 / 288230376151711744)"
  by (rule fl_eval [where k = "- 6" and m = 5764607523034235]) (simp_all add: pow2_def)

subsection \<open>Ranking: examples\<close>

lemma fl_1_20: "fl (1 / 20) = Some (3602879701896397 / 72057594037927936)"
  by (rule fl_eval [where k = "- 5" and m = 7205759403792794]) (simp_all add: pow2_def)

lemma fl_1_5: "fl (1 / 5) = Some (3602879701896397 / 18014398509481984)"
  by (rule fl_eval [where k = "- 3" and m = 7205759403792794]) (simp_all add: pow2_def)

lemma ratio_A: "ratio (observation ''A'' 0 5 100) = Inr (Fin (3602879701896397 / 72057594037927936))"
  by (simp add: ratio_def observation_def py_then_def fl_1_20)

lemma ratio_B: "ratio (observation ''B'' 0 20 100) = Inr (Fin (3602879701896397 / 18014398509481984))"
  by (simp add: ratio_def observation_def py_then_def fl_1_5)

lemma ratio_C: "ratio (observation ''C'' 0 10 200) = Inr (Fin (3602879701896397 / 72057594037927936))"
  by (simp add: ratio_def observation_def py_then_def fl_1_20)

lemma has_ratio_observation:
  "cases \<noteq> 0 \<Longrightarrow> \<bar>deaths\<bar> < 2 ^ 53 \<Longrightarrow> \<bar>cases\<bar> < 2 ^ 53 \<Longrightarrow>
   has_ratio (observation name new deaths cases)"
proof -
  assume a: "cases \<noteq> 0" "\<bar>deaths\<bar> < 2 ^ 53" "\<bar>cases\<bar> < 2 ^ 53"
  have r: "float_range (of_int i)" if "\<bar>i\<bar> < 2 ^ 53" for i :: int
  proof -
    have "(of_int \<bar>i\<bar> :: rat) < of_int (2 ^ 53)" using that by (simp only: of_int_less_iff)
    then show ?thesis by (simp add: float_range_def)
  qed
  show ?thesis using a r by (simp add: has_ratio_def observation_def)
qed

text \<open>
  The claim as stated, for every sequence, fails on two observations whose total cases
  are zero: \<^verbatim>\<open>TopRegion\<close> raises \<^verbatim>\<open>ZeroDivisionError\<close> and returns nothing.
\<close>

theorem TopRegion_two_zero:
  "TopRegion [observation ''A'' 0 5 0, observation ''B'' 0 20 0] 3 = Inl ZeroDivisionError"
  by (simp add: TopRegion_def sorted_reverse_def py_then_def Region_lt_def ratio_def
      observation_def)

theorem TopRegion_sorted_witness:
  "has_ratio (observation ''A'' 0 5 100) \<and> has_ratio (observation ''B'' 0 20 100) \<and>
   has_ratio (observation ''C'' 0 10 200) \<and>
   TopRegion [observation ''A'' 0 5 100, observation ''B'' 0 20 100, observation ''C'' 0 10 200] 2
     = Inr [observation ''B'' 0 20 100, observation ''A'' 0 5 100] \<and>
   (\<exists>ys. TopRegion
           [observation ''A'' 0 5 100, observation ''B'' 0 20 100, observation ''C'' 0 10 200] 2
         = Inr (take 2 ys) \<and>
       mset ys = mset [observation ''A'' 0 5 100, observation ''B'' 0 20 100,
                       observation ''C'' 0 10 200] \<and>
       sorted_wrt (\<lambda>a b. ratio_value b \<le> ratio_value a) ys \<and>
       filter (\<lambda>r. ratio_value r = ratio_value (observation ''A'' 0 5 100)) ys
         = [observation ''A'' 0 5 100, observation ''C'' 0 10 200])"
proof -
  let ?A = "observation ''A'' 0 5 100"
  let ?B = "observation ''B'' 0 20 100"
  let ?C = "observation ''C'' 0 10 200"
  have h: "has_ratio ?A" "has_ratio ?B" "has_ratio ?C"
    by (simp_all add: has_ratio_observation)
  have ne: "?A \<noteq> ?C" by (simp add: observation_def)
  have rv: "ratio_value ?A = 3602879701896397 / 72057594037927936" "ratio_value ?B = 3602879701896397 / 18014398509481984" "ratio_value ?C = 3602879701896397 / 72057594037927936"
    by (simp_all add: ratio_value_def ratio_A ratio_B ratio_C)
  have top: "TopRegion [?A, ?B, ?C] 2 = Inr [?B, ?A]"
    by (simp add: TopRegion_def sorted_reverse_def py_then_def Region_lt_def
        ratio_A ratio_B ratio_C py_slice_nonneg)
  have "\<forall>r\<in>set [?A, ?B, ?C]. has_ratio r" using h by simp
  from TopRegion_sorted [OF this, of 2] obtain ys where
    ys: "TopRegion [?A, ?B, ?C] 2 = Inr (take (nat 2) ys)" "mset ys = mset [?A, ?B, ?C]"
        "sorted_wrt (\<lambda>a b. ratio_value b \<le> ratio_value a) ys"
        "\<forall>v. filter (\<lambda>r. ratio_value r = v) ys = filter (\<lambda>r. ratio_value r = v) [?A, ?B, ?C]"
    by auto
  from ys(4) have "filter (\<lambda>r. ratio_value r = ratio_value ?A) ys
      = filter (\<lambda>r. ratio_value r = ratio_value ?A) [?A, ?B, ?C]"
    by blast
  also have "\<dots> = [?A, ?C]" by (simp add: rv)
  finally have "filter (\<lambda>r. ratio_value r = ratio_value ?A) ys = [?A, ?C]" .
  with ys(1-3) have "\<exists>ys. TopRegion [?A, ?B, ?C] 2 = Inr (take 2 ys) \<and>
       mset ys = mset [?A, ?B, ?C] \<and>
       sorted_wrt (\<lambda>a b. ratio_value b \<le> ratio_value a) ys \<and>
       filter (\<lambda>r. ratio_value r = ratio_value ?A) ys = [?A, ?C]"
    by (intro exI [of _ ys]) simp
  with h top show ?thesis by blast
qed

theorem TopRegion_zero_total_witness:
  "TopRegion [observation ''A'' 0 5 0, observation ''B'' 0 20 100] 3 = Inl ZeroDivisionError"
proof -
  let ?obs = "[observation ''A'' 0 5 0, observation ''B'' 0 20 100]"
  have fr: "float_range 5" "float_range 20" "float_range 100" "float_range 0"
    by (simp_all add: float_range_def)
  have a: "2 \<le> length ?obs" by simp
  have b: "\<forall>r\<in>set ?obs. \<exists>t. TotalCases r = IntV t" by (simp add: observation_def)
  have c: "\<exists>r\<in>set ?obs. TotalCases r = IntV 0" by (simp add: observation_def)
  have d: "\<forall>r\<in>set ?obs. convertible (Deaths r) \<and> total_in_range r"
    using fr by (simp add: observation_def total_in_range_def)
  from TopRegion_zero_total [OF a b c, of 3] d show ?thesis by blast
qed

subsection \<open>Averaging\<close>

lemma accumulate_Inl: "accumulate ls (D, C) = Inl e \<Longrightarrow> e = TypeError"
proof (induction ls arbitrary: D C)
  case Nil
  then show ?case by simp
next
  case (Cons l ls)
  then show ?case by (cases "NewCases l") (auto simp: py_then_def)
qed

lemma accumulate_empty:
  assumes "accumulate Ls ([], []) = Inr (D, C)"
  shows "map fst D = map fst C" "distinct (map fst D)" "distinct (map fst C)"
    "\<forall>c\<in>snd ` set C. 1 \<le> c" "set (map fst D) = Name ` set Ls"
    "dict_get D name 0 = region_sum Ls name" "dict_get C name 0 = region_count Ls name"
proof -
  have p1: "map fst ([] :: (string \<times> int) list) = map fst ([] :: (string \<times> int) list)"
    by simp
  have p2: "distinct (map fst ([] :: (string \<times> int) list))" by simp
  have p3: "\<forall>c\<in>snd ` set ([] :: (string \<times> int) list). 1 \<le> c" by simp
  note r = accumulate_Inr [OF assms p1 p2 p3]
  from r show k: "map fst D = map fst C" by blast
  from r show d: "distinct (map fst D)" by blast
  from d show "distinct (map fst C)" by (simp only: k)
  from r show "\<forall>c\<in>snd ` set C. 1 \<le> c" by blast
  from r have "set (map fst D) = set (map fst ([] :: (string \<times> int) list)) \<union> Name ` set Ls"
    by blast
  then show "set (map fst D) = Name ` set Ls" by simp
  from r have "dict_get D name 0 = dict_get [] name 0 + region_sum Ls name" by blast
  then show "dict_get D name 0 = region_sum Ls name" by (simp add: dict_get_def)
  from r have "dict_get C name 0 = dict_get [] name 0 + region_count Ls name" by blast
  then show "dict_get C name 0 = region_count Ls name" by (simp add: dict_get_def)
qed

lemma counts_found:
  assumes "map fst D = map fst C" "\<forall>c\<in>snd ` set C. (1::int) \<le> c" "(name, s) \<in> set D"
  shows "\<exists>c. map_of C name = Some c \<and> 1 \<le> c"
proof -
  from assms(3) have "name \<in> set (map fst D)" by force
  with assms(1) have "name \<in> fst ` set C" by simp
  then obtain c where c: "map_of C name = Some c"
    by (cases "map_of C name") (auto simp: map_of_eq_None_iff)
  then have "(name, c) \<in> set C" by (rule map_of_SomeD)
  with assms(2) have "1 \<le> c" by force
  with c show ?thesis by blast
qed

text \<open>
  Claim C9. Whenever the first loop of \<^verbatim>\<open>ComputeAverage\<close> completes, on any sequence
  of observations (so also on every prefix of one: after every iteration), the
  dictionaries \<^verbatim>\<open>D\<close> and \<^verbatim>\<open>C\<close> have the same keys, in the same order, and every
  count in \<^verbatim>\<open>C\<close> is at least 1; so for every item of \<^verbatim>\<open>D\<close> the lookup \<^verbatim>\<open>C[name]\<close>
  succeeds and the division \<^verbatim>\<open>D[name] / C[name]\<close> does not divide by zero.
  \<^verbatim>\<open>ComputeAverage\<close> never raises \<^verbatim>\<open>ZeroDivisionError\<close> or \<^verbatim>\<open>KeyError\<close>.
\<close>

theorem ComputeAverage_counts:
  "(accumulate Ls ([], []) = Inr (D, C) \<longrightarrow>
      map fst D = map fst C \<and> distinct (map fst C) \<and> (\<forall>c\<in>snd ` set C. 1 \<le> c) \<and>
      (\<forall>(name, s)\<in>set D. \<exists>c. dict_item C name = Inr c \<and> 1 \<le> c \<and>
          int_truediv s c \<noteq> Inl ZeroDivisionError)) \<and>
   ComputeAverage Ls \<noteq> Inl ZeroDivisionError \<and> ComputeAverage Ls \<noteq> Inl KeyError"
proof -
  have inv: "map fst D' = map fst C' \<and> distinct (map fst C') \<and> (\<forall>c\<in>snd ` set C'. 1 \<le> c) \<and>
      (\<forall>(name, s)\<in>set D'. \<exists>c. dict_item C' name = Inr c \<and> 1 \<le> c \<and>
          int_truediv s c \<noteq> Inl ZeroDivisionError)"
    if acc: "accumulate Ls ([], []) = Inr (D', C')" for D' C'
  proof -
    note k = accumulate_empty(1) [OF acc] and d = accumulate_empty(3) [OF acc]
      and c = accumulate_empty(4) [OF acc]
    have "\<exists>c. dict_item C' name = Inr c \<and> 1 \<le> c \<and> int_truediv s c \<noteq> Inl ZeroDivisionError"
      if "(name, s) \<in> set D'" for name s
    proof -
      from counts_found [OF k c that] obtain c where "map_of C' name = Some c" "1 \<le> c"
        by blast
      then show ?thesis
        by (intro exI [of _ c]) (auto simp: dict_item_def int_truediv_def split: option.splits)
    qed
    with k d c show ?thesis by auto
  qed
  have no: "e = TypeError \<or> e = OverflowError" if e: "ComputeAverage Ls = Inl e" for e
  proof (cases "accumulate Ls ([], [])")
    case (Inl e')
    with e have "e' = e" by (simp add: ComputeAverage_def py_then_def)
    with accumulate_Inl [OF Inl] show ?thesis by simp
  next
    case (Inr p)
    obtain D' C' where p: "p = (D', C')" by (cases p)
    from Inr p e have av: "averages D' C' = Inl e"
      by (simp add: ComputeAverage_def py_then_def)
    note k = accumulate_empty(1) [OF Inr [unfolded p]]
      and c = accumulate_empty(4) [OF Inr [unfolded p]]
    have "\<forall>(name, s)\<in>set D'. \<exists>c. map_of C' name = Some c \<and> c \<noteq> 0"
      using counts_found [OF k c] by fastforce
    from averages_Inl [OF av this] show ?thesis by simp
  qed
  from inv no show ?thesis by (intro conjI impI) auto
qed

theorem ComputeAverage_counts_witness:
  "accumulate [observation ''A'' 2 0 1, observation ''B'' 5 0 1, observation ''A'' 4 0 1] ([], [])
     = Inr ([(''A'', 6), (''B'', 5)], [(''A'', 2), (''B'', 1)]) \<and>
   dict_item [(''A'', 2), (''B'', 1)] ''A'' = Inr (2::int) \<and>
   dict_item [(''A'', 2), (''B'', 1)] ''B'' = Inr (1::int) \<and>
   int_truediv 6 2 \<noteq> Inl ZeroDivisionError \<and> int_truediv 5 1 \<noteq> Inl ZeroDivisionError \<and>
   ComputeAverage [observation ''A'' 2 0 1, observation ''B'' 5 0 1, observation ''A'' 4 0 1]
     \<noteq> Inl ZeroDivisionError"
proof -
  let ?Ls = "[observation ''A'' 2 0 1, observation ''B'' 5 0 1, observation ''A'' 4 0 1]"
  have acc: "accumulate ?Ls ([], []) = Inr ([(''A'', 6), (''B'', 5)], [(''A'', 2), (''B'', 1)])"
    by (simp add: observation_def py_then_def dict_get_def)
  from ComputeAverage_counts [of ?Ls "[(''A'', 6), (''B'', 5)]" "[(''A'', 2), (''B'', 1)]"] acc
  have "(\<forall>(name, s)\<in>set [(''A'', 6), (''B'', 5)].
           \<exists>c. dict_item [(''A'', 2), (''B'', 1)] name = Inr c \<and> 1 \<le> c \<and>
               int_truediv s c \<noteq> Inl ZeroDivisionError)"
    and nz: "ComputeAverage ?Ls \<noteq> Inl ZeroDivisionError"
    by blast+
  then have "int_truediv 6 2 \<noteq> Inl ZeroDivisionError" "int_truediv 5 1 \<noteq> Inl ZeroDivisionError"
    by (auto simp: dict_item_def)
  with acc nz show ?thesis by (simp add: dict_item_def)
qed

lemma region_sum_new_cases:
  "region_sum obs name
     = sum_list (map (\<lambda>f. case f of IntV v \<Rightarrow> v | NanStr \<Rightarrow> 0) (new_cases_of obs name))"
  by (simp add: region_sum_def new_cases_of_def comp_def)

lemma region_count_new_cases:
  "region_count obs name = int (length (new_cases_of obs name))"
  by (simp add: region_count_def new_cases_of_def)

lemma new_cases_region:
  assumes "new_cases_of obs name \<noteq> []"
  shows "\<exists>r\<in>set obs. Name r = name"
proof -
  from assms have "filter (\<lambda>l. Name l = name) obs \<noteq> []"
    by (simp add: new_cases_of_def)
  then show ?thesis by (auto simp: filter_empty_conv)
qed

lemma ComputeAverage_values:
  assumes ints: "\<forall>r\<in>set obs. NewCases r \<noteq> NanStr"
    and range: "\<forall>r\<in>set obs. float_range (region_mean obs (Name r))"
  shows "\<exists>m. ComputeAverage obs = Inr m \<and> distinct (map fst m) \<and>
           set (map fst m) = Name ` set obs \<and>
           (\<forall>r\<in>set obs. \<exists>q v. fl (region_mean obs (Name r)) = Some q \<and>
               fl (round2_exact q) = Some v \<and> map_of m (Name r) = Some (Fin v))"
proof -
  from accumulate_ints [OF ints] obtain D C where acc: "accumulate obs ([], []) = Inr (D, C)"
    by blast
  note k = accumulate_empty(1) [OF acc] and d = accumulate_empty(2) [OF acc]
    and c1 = accumulate_empty(4) [OF acc] and keys = accumulate_empty(5) [OF acc]
    and sums = accumulate_empty(6) [OF acc] and counts = accumulate_empty(7) [OF acc]
  have item: "s = region_sum obs name \<and> map_of C name = Some (region_count obs name) \<and>
      region_count obs name \<noteq> 0 \<and> (\<exists>r\<in>set obs. Name r = name)"
    if "(name, s) \<in> set D" for name s
  proof -
    from that d have "map_of D name = Some s" by simp
    then have "dict_get D name 0 = s" by (simp add: dict_get_def)
    with sums [of name] have s: "s = region_sum obs name" by simp
    from counts_found [OF k c1 that] obtain c where c: "map_of C name = Some c" "1 \<le> c"
      by blast
    then have "dict_get C name 0 = c" by (simp add: dict_get_def)
    with counts [of name] have "c = region_count obs name" by simp
    moreover from that have "name \<in> set (map fst D)" by force
    then have "\<exists>r\<in>set obs. Name r = name" using keys by auto
    ultimately show ?thesis using s c by auto
  qed
  have "\<forall>(name, s)\<in>set D. \<exists>c q r. map_of C name = Some c \<and> c \<noteq> 0 \<and>
             fl (of_int s / of_int c) = Some q \<and>
             fl (of_int (round_half_even (q * 100)) / 100) = Some r"
  proof (clarify)
    fix name s assume ns: "(name, s) \<in> set D"
    from item [OF ns] obtain r where r: "r \<in> set obs" "Name r = name" by blast
    with range have "float_range (region_mean obs name)" by blast
    then have "\<bar>of_int s / of_int (region_count obs name)\<bar> < (2 ^ 1024 - 2 ^ 970 :: rat)"
      using item [OF ns] by (simp add: float_range_def region_mean_def)
    from round2_defined [OF this] item [OF ns]
    show "\<exists>c q r. map_of C name = Some c \<and> c \<noteq> 0 \<and>
             fl (of_int s / of_int c) = Some q \<and>
             fl (of_int (round_half_even (q * 100)) / 100) = Some r"
      by blast
  qed
  from averages_Inr [OF this] obtain m where
    m: "averages D C = Inr m" "map fst m = map fst D"
       "\<forall>name s. (name, s) \<in> set D \<longrightarrow>
          (\<exists>c q r. map_of C name = Some c \<and> fl (of_int s / of_int c) = Some q \<and>
             fl (of_int (round_half_even (q * 100)) / 100) = Some r \<and>
             (name, Fin r) \<in> set m)"
    by blast
  have dm: "distinct (map fst m)" using m(2) d by simp
  have val: "\<exists>q v. fl (region_mean obs (Name r)) = Some q \<and>
               fl (round2_exact q) = Some v \<and> map_of m (Name r) = Some (Fin v)"
    if "r \<in> set obs" for r
  proof -
    from that keys have "Name r \<in> set (map fst D)" by auto
    then obtain s where ns: "(Name r, s) \<in> set D" by auto
    from m(3) ns obtain c q v where
      cqv: "map_of C (Name r) = Some c" "fl (of_int s / of_int c) = Some q"
           "fl (of_int (round_half_even (q * 100)) / 100) = Some v" "(Name r, Fin v) \<in> set m"
      by blast
    from item [OF ns] cqv(1) have "of_int s / of_int c = region_mean obs (Name r)"
      by (simp add: region_mean_def)
    with cqv(2) have "fl (region_mean obs (Name r)) = Some q" by simp
    moreover from cqv(3) have "fl (round2_exact q) = Some v" by (simp add: round2_exact_def)
    moreover from cqv(4) dm have "map_of m (Name r) = Some (Fin v)" by simp
    ultimately show ?thesis by blast
  qed
  have "ComputeAverage obs = Inr m"
    using acc m(1) by (simp add: ComputeAverage_def py_then_def)
  moreover have "set (map fst m) = Name ` set obs" using m(2) keys by simp
  ultimately show ?thesis using dm val by blast
qed

lemma example_mean:
  assumes vals: "\<forall>r\<in>set obs. \<exists>q v. fl (region_mean obs (Name r)) = Some q \<and>
               fl (round2_exact q) = Some v \<and> map_of m (Name r) = Some (Fin v)"
    and nc: "new_cases_of obs name = cs" "cs \<noteq> []"
    and mean: "of_int (sum_list (map (\<lambda>f. case f of IntV v \<Rightarrow> v | NanStr \<Rightarrow> 0) cs))
                 / of_int (int (length cs)) = (x :: rat)"
    and fl: "fl x = Some q" "fl (round2_exact q) = Some v"
  shows "map_of m name = Some (Fin v)"
proof -
  from new_cases_region [of obs name] nc obtain r where r: "r \<in> set obs" "Name r = name"
    by auto
  have "region_mean obs name = x"
    using mean nc(1) by (simp add: region_mean_def region_sum_new_cases region_count_new_cases)
  with vals r fl show ?thesis by fastforce
qed

text \<open>
  Claim C3, as amended. For every sequence of observations whose new-case attributes
  are all integers and whose regional means are in the range of the floats,
  \<^verbatim>\<open>ComputeAverage\<close> returns a mapping whose keys are the distinct region names of the
  sequence, and whose value for a region is \<^verbatim>\<open>round(sum / count, 2)\<close> in floating
  point: the float \<open>q\<close> nearest to the region's mean, rounded to two decimals with ties
  to even on the exact value of \<open>q\<close>, and of that decimal the nearest float. A region
  with new cases 2, 4, 6 maps to 4.0; with 1, 2 to 1.5; with 1, 1, 2 to the float
  1.33 (the float nearest to 133/100).
\<close>

theorem ComputeAverage_means:
  assumes ints: "\<forall>r\<in>set obs. NewCases r \<noteq> NanStr"
    and range: "\<forall>r\<in>set obs. float_range (region_mean obs (Name r))"
  shows "\<exists>m. ComputeAverage obs = Inr m \<and> distinct (map fst m) \<and>
           set (map fst m) = Name ` set obs \<and>
           (\<forall>r\<in>set obs. \<exists>q v. fl (region_mean obs (Name r)) = Some q \<and>
               fl (round2_exact q) = Some v \<and> map_of m (Name r) = Some (Fin v)) \<and>
           (\<forall>name. new_cases_of obs name = [IntV 2, IntV 4, IntV 6]
               \<longrightarrow> map_of m name = Some (Fin 4)) \<and>
           (\<forall>name. new_cases_of obs name = [IntV 1, IntV 2]
               \<longrightarrow> map_of m name = Some (Fin (3 / 2))) \<and>
           (\<forall>name. new_cases_of obs name = [IntV 1, IntV 1, IntV 2]
               \<longrightarrow> map_of m name = Some (Fin (748723438050345 / 562949953421312))) \<and>
           fl (133 / 100) = Some (748723438050345 / 562949953421312)"
proof -
  from ComputeAverage_values [OF ints range] obtain m where
    m: "ComputeAverage obs = Inr m" "distinct (map fst m)" "set (map fst m) = Name ` set obs"
       "\<forall>r\<in>set obs. \<exists>q v. fl (region_mean obs (Name r)) = Some q \<and>
               fl (round2_exact q) = Some v \<and> map_of m (Name r) = Some (Fin v)"
    by blast
  have e1: "map_of m name = Some (Fin 4)"
    if "new_cases_of obs name = [IntV 2, IntV 4, IntV 6]" for name
    by (rule example_mean [OF m(4) that, where x = 4 and q = 4])
      (simp_all add: round2_exact_def)
  have e2: "map_of m name = Some (Fin (3 / 2))"
    if "new_cases_of obs name = [IntV 1, IntV 2]" for name
    by (rule example_mean [OF m(4) that, where x = "3 / 2" and q = "3 / 2"])
      (simp_all add: round2_exact_def fl_three_halves)
  have e3: "map_of m name = Some (Fin (748723438050345 / 562949953421312))"
    if "new_cases_of obs name = [IntV 1, IntV 1, IntV 2]" for name
    by (rule example_mean [OF m(4) that, where x = "4 / 3"
          and q = "6004799503160661 / 4503599627370496"])
      (simp_all add: round2_exact_def fl_four_thirds fl_1_33)
  from m e1 e2 e3 fl_1_33 show ?thesis by blast
qed

lemma region_mean_forty:
  "region_mean (observation ''A'' 1 0 1 # replicate 39 (observation ''A'' 0 0 1)) ''A'' = 1 / 40"
  by (simp add: region_mean_def region_sum_def region_count_def observation_def
      sum_list_replicate)

text \<open>
  The claim as stated fails in two ways. On an observation whose new-case attribute is
  the sentinel \<^verbatim>\<open>'nan'\<close>, \<^verbatim>\<open>ComputeAverage\<close> raises \<^verbatim>\<open>TypeError\<close> and returns no
  mapping. On forty observations of one region with new cases 1, 0, ..., 0 the mean
  is 1/40 = 0.025, which round-half-to-even takes to 0.02; the float nearest to 1/40
  is above 0.025, and \<^verbatim>\<open>ComputeAverage\<close> returns the float 0.03.
\<close>

theorem ComputeAverage_not_half_even:
  "ComputeAverage [(observation ''A'' 0 0 1)\<lparr>NewCases := NanStr\<rparr>] = Inl TypeError \<and>
   ComputeAverage (observation ''A'' 1 0 1 # replicate 39 (observation ''A'' 0 0 1))
     = Inr [(''A'', Fin (1080863910568919 / 36028797018963968))] \<and>
   region_mean (observation ''A'' 1 0 1 # replicate 39 (observation ''A'' 0 0 1)) ''A'' = 1 / 40 \<and>
   round2_exact (1 / 40) = 1 / 50 \<and>
   fl (1 / 50) = Some (5764607523034235 / 288230376151711744) \<and>
   fl (3 / 100) = Some (1080863910568919 / 36028797018963968)"
proof -
  have a: "ComputeAverage [(observation ''A'' 0 0 1)\<lparr>NewCases := NanStr\<rparr>] = Inl TypeError"
    by (simp add: ComputeAverage_def observation_def py_then_def dict_get_def)
  have acc: "accumulate (observation ''A'' 1 0 1 # replicate 39 (observation ''A'' 0 0 1)) ([], [])
      = Inr ([(''A'', 1)], [(''A'', 40)])"
    by (simp add: observation_def py_then_def dict_get_def eval_nat_numeral)
  have b: "ComputeAverage (observation ''A'' 1 0 1 # replicate 39 (observation ''A'' 0 0 1))
      = Inr [(''A'', Fin (1080863910568919 / 36028797018963968))]"
    unfolding ComputeAverage_def acc
    by (simp add: py_then_def dict_item_def int_truediv_def fl_1_40 fl_0_03)
  have c: "round2_exact (1 / 40) = 1 / 50"
    by (simp add: round2_exact_def)
  from a b c region_mean_forty fl_0_02 fl_0_03 show ?thesis by blast
qed

theorem ComputeAverage_means_witness:
  "NewCases (observation ''A'' 2 0 1) \<noteq> NanStr \<and> NewCases (observation ''B'' 1 0 1) \<noteq> NanStr \<and>
   float_range (region_mean
     [observation ''A'' 2 0 1, observation ''B'' 1 0 1, observation ''A'' 4 0 1,
      observation ''B'' 2 0 1, observation ''A'' 6 0 1] ''A'') \<and>
   float_range (region_mean
     [observation ''A'' 2 0 1, observation ''B'' 1 0 1, observation ''A'' 4 0 1,
      observation ''B'' 2 0 1, observation ''A'' 6 0 1] ''B'') \<and>
   (\<exists>m. ComputeAverage
          [observation ''A'' 2 0 1, observation ''B'' 1 0 1, observation ''A'' 4 0 1,
           observation ''B'' 2 0 1, observation ''A'' 6 0 1] = Inr m \<and>
        set (map fst m) = {''A'', ''B''} \<and>
        map_of m ''A'' = Some (Fin 4) \<and> map_of m ''B'' = Some (Fin (3 / 2)))"
proof -
  let ?obs = "[observation ''A'' 2 0 1, observation ''B'' 1 0 1, observation ''A'' 4 0 1,
      observation ''B'' 2 0 1, observation ''A'' 6 0 1]"
  have n: "NewCases (observation ''A'' 2 0 1) \<noteq> NanStr" "NewCases (observation ''B'' 1 0 1) \<noteq> NanStr"
    by (simp_all add: observation_def)
  have ma: "region_mean ?obs ''A'' = 4" and mb: "region_mean ?obs ''B'' = 3 / 2"
    by (simp_all add: region_mean_def region_sum_def region_count_def observation_def)
  have fr: "float_range (region_mean ?obs ''A'')" "float_range (region_mean ?obs ''B'')"
    by (simp_all add: ma mb float_range_def)
  have ints: "\<forall>r\<in>set ?obs. NewCases r \<noteq> NanStr" by (simp add: observation_def)
  have range: "\<forall>r\<in>set ?obs. float_range (region_mean ?obs (Name r))"
    using fr by (simp add: observation_def)
  have na: "new_cases_of ?obs ''A'' = [IntV 2, IntV 4, IntV 6]"
    and nb: "new_cases_of ?obs ''B'' = [IntV 1, IntV 2]"
    by (simp_all add: new_cases_of_def observation_def)
  have names: "Name ` set ?obs = {''A'', ''B''}" by (auto simp: observation_def)
  from ComputeAverage_means [OF ints range] obtain m where
    "ComputeAverage ?obs = Inr m" "set (map fst m) = Name ` set ?obs"
    "\<forall>name. new_cases_of ?obs name = [IntV 2, IntV 4, IntV 6] \<longrightarrow> map_of m name = Some (Fin 4)"
    "\<forall>name. new_cases_of ?obs name = [IntV 1, IntV 2] \<longrightarrow> map_of m name = Some (Fin (3 / 2))"
    by blast
  with na nb names have "\<exists>m. ComputeAverage ?obs = Inr m \<and> set (map fst m) = {''A'', ''B''} \<and>
        map_of m ''A'' = Some (Fin 4) \<and> map_of m ''B'' = Some (Fin (3 / 2))"
    by (intro exI [of _ m]) simp
  with n fr show ?thesis by blast
qed

end
